theory Spec2Isabelle
  imports Main "HOL-Library.Word"
begin

unbundle bit_operations_syntax

section \<open>Constants of pollerBILL.c\<close>

type_synonym byte = "8 word"

definition IDLE_POLL :: nat where
  "IDLE_POLL = 150"

definition MAX_RESPONSE_TIME :: nat where
  "MAX_RESPONSE_TIME = 600"

definition MAX_CLIENTS :: nat where
  "MAX_CLIENTS = 64"

definition OUR_MQTT_PORT :: int where
  "OUR_MQTT_PORT = 1883"

definition TOPOLOGY_SECS :: "64 word" where
  "TOPOLOGY_SECS = 4"

definition BROADCAST_PORT :: nat where
  "BROADCAST_PORT = 30000"

text \<open>The packet type that \<^verbatim>\<open>linux/if_packet.h\<close> gives to a frame the host itself sent.\<close>

definition PACKET_OUTGOING :: byte where
  "PACKET_OUTGOING = 4"

section \<open>Data\<close>

text \<open>\<^verbatim>\<open>ClientIP_st\<close>, one slot of the table \<^verbatim>\<open>Clients[MAX_CLIENTS]\<close>.  The field
  \<^verbatim>\<open>last\<close> is written \<open>last_b\<close> here.\<close>

record ClientIP_st =
  used :: byte
  next_to_last :: byte
  last_b :: byte
  sn :: "byte list"

text \<open>\<^verbatim>\<open>Topology_Msg_st\<close>: twelve bytes, in this order on the wire.\<close>

record Topology_Msg_st =
  secs_lsbyte :: byte
  secs_3rd :: byte
  secs_2nd :: byte
  secs_msbyte :: byte
  nano_lsbyte :: byte
  nano_3rd :: byte
  nano_2nd :: byte
  nano_msbyte :: byte
  mqtt_port_lsb :: byte
  mqtt_port_msb :: byte
  device_count :: byte
  core_version :: byte

text \<open>\<^verbatim>\<open>Topology_Dev_st\<close>: twenty-two bytes, in this order on the wire.\<close>

record Topology_Dev_st =
  ip_lsb :: byte
  ip_msb :: byte
  duplicate_flag :: byte
  serial_number :: "byte list"
  reserved1 :: byte

text \<open>\<^verbatim>\<open>struct sockaddr_in\<close>, as far as \<^verbatim>\<open>poll\<close> fills it: the address as its four
  octets and the port in host order.\<close>

record sockaddr_in =
  sin_port :: nat
  sin_addr :: "byte list"

text \<open>One \<^verbatim>\<open>sendto\<close> on the broadcast socket: the destination and the bytes sent.\<close>

record datagram =
  dest :: sockaddr_in
  payload :: "byte list"

text \<open>What the two processes print.\<close>

datatype out_event =
    P_OUT
  | P_SlipRx byte byte
  | P_Announce byte byte
  | P_NewEntry byte byte
  | P_TOPO nat byte
  | P_PollNum nat
  | P_X

text \<open>What one \<^verbatim>\<open>recvfrom\<close> of the capture loop delivers: its return value, the packet
  type of the link-layer address and the 2048-byte receive buffer after the call.\<close>

record recv =
  n :: int
  sll_pkttype :: byte
  buffer :: "byte list"

text \<open>The program state.  \<^verbatim>\<open>Resp\<close>, \<^verbatim>\<open>End\<close>, \<^verbatim>\<open>Nga\<close> and \<^verbatim>\<open>NewClient\<close> are the cells
  mapped shared before the fork; \<^verbatim>\<open>IdleTime\<close> is touched by the capture process only and
  \<^verbatim>\<open>Clients\<close> by the poll process only.  \<open>last_topology\<close>, \<open>DeviceCount\<close> and the
  block \<open>topo\<close> (a header followed by room for \<^verbatim>\<open>MAX_CLIENTS\<close> descriptors) are the
  locals of \<^verbatim>\<open>poll\<close> that live across iterations of its loop.  \<open>console\<close> collects
  the output, \<open>wire\<close> the datagrams sent, and \<open>tick\<close> counts the points at which the
  poll process has let the other process run.  The \<^verbatim>\<open>int\<close> cells only ever hold 0 or 1
  and \<open>idle\<close> stays below 601, so they are taken as \<open>int\<close> and \<open>nat\<close>;
  \<^verbatim>\<open>unsigned long\<close> is taken as 64 bits wide and \<^verbatim>\<open>unsigned char\<close> as \<open>8 word\<close>, both
  wrapping as in C.\<close>

record world =
  IdleTime :: int
  Resp :: int
  End :: int
  Nga :: int
  NewClient :: "byte list"
  Clients :: "ClientIP_st list"
  last_topology :: "64 word"
  DeviceCount :: byte
  topo_hdr :: Topology_Msg_st
  topo_devs :: "Topology_Dev_st list"
  console :: "out_event list"
  wire :: "datagram list"
  tick :: nat

section \<open>Helpers standing for C library calls\<close>

text \<open>\<^verbatim>\<open>memcpy(&dst[d], &src[s], k)\<close>, byte by byte.\<close>

fun memcpy :: "byte list \<Rightarrow> nat \<Rightarrow> byte list \<Rightarrow> nat \<Rightarrow> nat \<Rightarrow> byte list" where
  "memcpy dst d src s 0 = dst"
| "memcpy dst d src s (Suc k) = (memcpy dst d src s k)[d + k := src ! (s + k)]"

section \<open>The capture process\<close>

text \<open>One pass through the body of the receive loop of \<^verbatim>\<open>filter\<close>, taken as one step of
  the capture process.  The buffer is only compared with 0x55 and copied bytewise, so the
  signedness of \<^verbatim>\<open>char\<close> plays no part.\<close>

definition filter_recv :: "recv \<Rightarrow> world \<Rightarrow> world" where
  "filter_recv r w =
     (if n r > 0 then
        (let w1 = (if sll_pkttype r = PACKET_OUTGOING
                   then w\<lparr>console := console w @ [P_OUT]\<rparr>
                   else w\<lparr>End := 1,
                          console := console w @ [P_SlipRx (buffer r ! 2) (buffer r ! 3)],
                          IdleTime := 0\<rparr>)
         in if n r = 60 then
              (if buffer r ! 28 = 0x55 then
                 (if NewClient w1 ! 0 = 0 then
                    w1\<lparr>NewClient :=
                          memcpy ((NewClient w1)[1 := buffer r ! 30, 2 := buffer r ! 29, 0 := 1])
                            3 (buffer r) 32 18,
                        console := console w1 @ [P_Announce (buffer r ! 30) (buffer r ! 29)]\<rparr>
                  else w1)
               else w1)
            else w1)
      else w\<lparr>IdleTime := IdleTime w + 1\<rparr>)"

section \<open>The poll process\<close>

text \<open>The destination \<^verbatim>\<open>s\<close> that \<^verbatim>\<open>poll\<close> fills once, before its loop, and hands to every
  \<^verbatim>\<open>sendto\<close>: port \<^verbatim>\<open>BROADCAST_PORT\<close>, address 169.254.255.255.\<close>

definition sockaddr_s :: sockaddr_in where
  "sockaddr_s = \<lparr>sin_port = BROADCAST_PORT, sin_addr = [169, 254, 255, 255]\<rparr>"

text \<open>Both structs of the message consist of \<^verbatim>\<open>unsigned char\<close> fields only, so they lie
  in memory field after field: 12 and 22 bytes.\<close>

definition sizeof_Topology_Msg_st :: nat where
  "sizeof_Topology_Msg_st = 12"

definition sizeof_Topology_Dev_st :: nat where
  "sizeof_Topology_Dev_st = 22"

subsection \<open>Discovery drain\<close>

text \<open>Both loops of the drain run \<^verbatim>\<open>i\<close> over the slots of the table from 0 upwards and
  stop at the first hit; the functions walk the list of slots in that order.  The first
  loop: is some slot in use with the pair of the mailbox?\<close>

fun find_existing :: "byte list \<Rightarrow> ClientIP_st list \<Rightarrow> bool" where
  "find_existing nc [] = False"
| "find_existing nc (c # cs) =
     (if used c \<noteq> 0 \<and> next_to_last c = nc ! 1 \<and> last_b c = nc ! 2 then True
      else find_existing nc cs)"

text \<open>The second loop: fill the first free slot, if there is one.  The flag tells whether
  a slot was filled.\<close>

fun insert_free :: "byte list \<Rightarrow> ClientIP_st list \<Rightarrow> ClientIP_st list \<times> bool" where
  "insert_free nc [] = ([], False)"
| "insert_free nc (c # cs) =
     (if used c = 0
      then (c\<lparr>next_to_last := nc ! 1, last_b := nc ! 2,
              sn := memcpy (sn c) 0 nc 3 18, used := 1\<rparr> # cs, True)
      else (let (cs', ins) = insert_free nc cs in (c # cs', ins)))"

definition drain :: "world \<Rightarrow> world" where
  "drain w =
     (if NewClient w ! 0 \<noteq> 0 then
        (let w1 =
           (if \<not> find_existing (NewClient w) (Clients w) then
              (let (cs, ins) = insert_free (NewClient w) (Clients w)
               in if ins
                  then w\<lparr>Clients := cs,
                         console := console w @ [P_NewEntry (NewClient w ! 1) (NewClient w ! 2)],
                         DeviceCount := DeviceCount w + 1\<rparr>
                  else w)
            else w)
         in w1\<lparr>NewClient := (NewClient w1)[0 := 0]\<rparr>)
      else w)"

subsection \<open>Topology broadcast\<close>

text \<open>The clock readings of one iteration: \<^verbatim>\<open>time(0)\<close> and the two fields that
  \<^verbatim>\<open>gettimeofday\<close> fills.\<close>

record clock =
  now :: "64 word"
  tv_sec :: int
  tv_usec :: int

text \<open>Storing an \<^verbatim>\<open>int\<close> into an \<^verbatim>\<open>unsigned char\<close>.\<close>

definition to_uchar :: "int \<Rightarrow> byte" where
  "to_uchar x = word_of_int x"

text \<open>The loop over the table that appends one descriptor per slot in use.  It carries
  \<^verbatim>\<open>xmit_len\<close> and the position of \<^verbatim>\<open>dev\<close>, counted in descriptors from the first one;
  \<^verbatim>\<open>reserved1\<close> is never written.  The block has one descriptor per slot of the table,
  so \<^verbatim>\<open>dev\<close> stays inside it (\<open>poll_inv\<close> below).\<close>

fun fill_devs ::
  "ClientIP_st list \<Rightarrow> nat \<Rightarrow> nat \<Rightarrow> Topology_Dev_st list \<Rightarrow> nat \<times> nat \<times> Topology_Dev_st list" where
  "fill_devs [] xmit_len dev devs = (xmit_len, dev, devs)"
| "fill_devs (c # cs) xmit_len dev devs =
     (if used c \<noteq> 0
      then fill_devs cs (xmit_len + sizeof_Topology_Dev_st) (dev + 1)
             (devs[dev := (devs ! dev)\<lparr>ip_lsb := last_b c, ip_msb := next_to_last c,
                                       duplicate_flag := 0,
                                       serial_number :=
                                         memcpy (serial_number (devs ! dev)) 0 (sn c) 0 18\<rparr>])
      else fill_devs cs xmit_len dev devs)"

text \<open>The bytes of the block \<^verbatim>\<open>topo\<close> as they lie in memory.\<close>

definition bytes_of_msg :: "Topology_Msg_st \<Rightarrow> byte list" where
  "bytes_of_msg h =
     [secs_lsbyte h, secs_3rd h, secs_2nd h, secs_msbyte h,
      nano_lsbyte h, nano_3rd h, nano_2nd h, nano_msbyte h,
      mqtt_port_lsb h, mqtt_port_msb h, device_count h, core_version h]"

definition bytes_of_dev :: "Topology_Dev_st \<Rightarrow> byte list" where
  "bytes_of_dev d = [ip_lsb d, ip_msb d, duplicate_flag d] @ serial_number d @ [reserved1 d]"

definition topo_bytes :: "Topology_Msg_st \<Rightarrow> Topology_Dev_st list \<Rightarrow> byte list" where
  "topo_bytes h devs = bytes_of_msg h @ concat (map bytes_of_dev devs)"

definition topology :: "clock \<Rightarrow> world \<Rightarrow> world" where
  "topology t w =
     (if now t - last_topology w > TOPOLOGY_SECS then
        (let m = (tv_usec t * 1000) mod 2 ^ 32;
             hdr = (topo_hdr w)
               \<lparr>core_version := 1,
                mqtt_port_lsb := to_uchar (OUR_MQTT_PORT AND 0x00ff),
                mqtt_port_msb := to_uchar (drop_bit 8 OUR_MQTT_PORT AND 0x00ff),
                device_count := DeviceCount w,
                secs_lsbyte := to_uchar (tv_sec t AND 0x00ff),
                secs_3rd := to_uchar (drop_bit 8 (tv_sec t) AND 0x00ff),
                secs_2nd := to_uchar (drop_bit 16 (tv_sec t) AND 0x00ff),
                secs_msbyte := to_uchar (drop_bit 24 (tv_sec t) AND 0x00ff),
                nano_lsbyte := to_uchar (m AND 0x00ff),
                nano_3rd := to_uchar (drop_bit 8 m AND 0x00ff),
                nano_2nd := to_uchar (drop_bit 16 m AND 0x00ff),
                nano_msbyte := to_uchar (drop_bit 24 m AND 0x00ff)\<rparr>;
             (xmit_len, dev, devs) = fill_devs (Clients w) sizeof_Topology_Msg_st 0 (topo_devs w)
         in w\<lparr>last_topology := now t, topo_hdr := hdr, topo_devs := devs,
               wire := wire w @ [\<lparr>dest = sockaddr_s, payload = take xmit_len (topo_bytes hdr devs)\<rparr>],
               console := console w @ [P_TOPO xmit_len (DeviceCount w)]\<rparr>)
      else w)"

subsection \<open>Device poll round\<close>

text \<open>The capture process runs beside the poll process.  An environment \<open>E\<close> says what
  happens to the state at each point where the poll process lets time pass or looks at a
  shared cell; \<open>env_act\<close> is one such point.\<close>

definition env_act :: "(nat \<Rightarrow> world \<Rightarrow> world) \<Rightarrow> world \<Rightarrow> world" where
  "env_act E w = (E (tick w) w)\<lparr>tick := tick w + 1\<rparr>"

text \<open>The wait loop.  \<open>idle\<close> counts the calls of \<^verbatim>\<open>msleep(1)\<close>.  The other process
  runs before the loop condition reads \<^verbatim>\<open>*Resp\<close> and during the sleep; the two cells of
  the \<^verbatim>\<open>break\<close> test are read together after the sleep.  The result holds the state,
  the final \<open>idle\<close> and whether the loop was left by \<^verbatim>\<open>break\<close>.\<close>

function poll_wait :: "(nat \<Rightarrow> world \<Rightarrow> world) \<Rightarrow> world \<Rightarrow> nat \<Rightarrow> world \<times> nat \<times> bool" where
  "poll_wait E w idle =
     (let w1 = env_act E w
      in if (if Resp w1 = 0 then idle < IDLE_POLL else idle < MAX_RESPONSE_TIME) then
           (let w2 = env_act E w1;
                idle' = idle + 1
            in if End w2 \<noteq> 0 \<and> Resp w2 \<noteq> 0 then (w2, idle', True)
               else poll_wait E w2 idle')
         else (w1, idle, False))"
  by pat_completeness auto
termination
  by (relation "measure (\<lambda>(E, w, idle). MAX_RESPONSE_TIME - idle)")
     (auto simp: IDLE_POLL_def MAX_RESPONSE_TIME_def split: if_splits)

declare poll_wait.simps [simp del]

text \<open>The body of the loop over the table, for slot \<open>i\<close> holding \<open>c\<close>: first the
  statements up to the wait, then the wait and the test that prints \<^verbatim>\<open>X\<close>.  Only the
  first four bytes of \<^verbatim>\<open>mess\<close> are written and sent, so \<open>mess\<close> holds just these.\<close>

definition poll_send :: "(nat \<Rightarrow> world \<Rightarrow> world) \<Rightarrow> nat \<Rightarrow> ClientIP_st \<Rightarrow> world \<Rightarrow> world" where
  "poll_send E i c w =
     (let mess = [169, 254, next_to_last c, last_b c];
          w1 = env_act E (w\<lparr>Resp := 0\<rparr>);
          w2 = env_act E (w1\<lparr>End := 0\<rparr>);
          w3 = w2\<lparr>Nga := 1\<rparr>
      in w3\<lparr>wire := wire w3 @ [\<lparr>dest = sockaddr_s, payload = take 4 mess\<rparr>],
            console := console w3 @ [P_PollNum (i + 1)]\<rparr>)"

definition poll_client :: "(nat \<Rightarrow> world \<Rightarrow> world) \<Rightarrow> nat \<Rightarrow> ClientIP_st \<Rightarrow> world \<Rightarrow> world" where
  "poll_client E i c w =
     (if used c \<noteq> 0 then
        (let (w5, idle, brk) = poll_wait E (poll_send E i c w) 0;
             w6 = env_act E w5
         in if Resp w6 = 1 then w6\<lparr>console := console w6 @ [P_X]\<rparr> else w6)
      else w)"

fun poll_clients ::
  "(nat \<Rightarrow> world \<Rightarrow> world) \<Rightarrow> nat \<Rightarrow> ClientIP_st list \<Rightarrow> world \<Rightarrow> world" where
  "poll_clients E i [] w = w"
| "poll_clients E i (c # cs) w = poll_clients E (i + 1) cs (poll_client E i c w)"

definition poll_round :: "(nat \<Rightarrow> world \<Rightarrow> world) \<Rightarrow> world \<Rightarrow> world" where
  "poll_round E w = (poll_clients E 0 (Clients w) w)\<lparr>Nga := 0\<rparr>"

subsection \<open>The loop of \<^verbatim>\<open>poll\<close> and the start of the program\<close>

text \<open>One iteration of the loop.  The other process runs before the mailbox is looked at,
  and again while the broadcast goes out and the pause of 500 ms passes.\<close>

definition poll_iteration :: "(nat \<Rightarrow> world \<Rightarrow> world) \<Rightarrow> clock \<Rightarrow> world \<Rightarrow> world" where
  "poll_iteration E t w = poll_round E (env_act E (topology t (drain (env_act E w))))"

fun poll_loop :: "(nat \<Rightarrow> world \<Rightarrow> world) \<Rightarrow> clock list \<Rightarrow> world \<Rightarrow> world" where
  "poll_loop E [] w = w"
| "poll_loop E (t # ts) w = poll_loop E ts (poll_iteration E t w)"

text \<open>The state when the loops start: the shared cells as \<^verbatim>\<open>main\<close> leaves them, the
  zeroed global table, the locals of \<^verbatim>\<open>poll\<close> as initialised and the block from
  \<^verbatim>\<open>calloc\<close>.\<close>

definition zero_client :: ClientIP_st where
  "zero_client = \<lparr>used = 0, next_to_last = 0, last_b = 0, sn = replicate 18 0\<rparr>"

definition zero_dev :: Topology_Dev_st where
  "zero_dev = \<lparr>ip_lsb = 0, ip_msb = 0, duplicate_flag = 0, serial_number = replicate 18 0,
               reserved1 = 0\<rparr>"

definition zero_hdr :: Topology_Msg_st where
  "zero_hdr = \<lparr>secs_lsbyte = 0, secs_3rd = 0, secs_2nd = 0, secs_msbyte = 0,
               nano_lsbyte = 0, nano_3rd = 0, nano_2nd = 0, nano_msbyte = 0,
               mqtt_port_lsb = 0, mqtt_port_msb = 0, device_count = 0, core_version = 0\<rparr>"

definition init_world :: world where
  "init_world =
     \<lparr>IdleTime = 0, Resp = 0, End = 0, Nga = 0, NewClient = replicate 21 0,
      Clients = replicate MAX_CLIENTS zero_client,
      last_topology = 0, DeviceCount = 0,
      topo_hdr = zero_hdr, topo_devs = replicate MAX_CLIENTS zero_dev,
      console = [], wire = [], tick = 0\<rparr>"

text \<open>The environment in which the capture process runs and the driver sends no signal:
  at point \<open>k\<close> the capture process handles the receives \<open>F k\<close>, in order.\<close>

definition capture_env :: "(nat \<Rightarrow> recv list) \<Rightarrow> nat \<Rightarrow> world \<Rightarrow> world" where
  "capture_env F k w = fold filter_recv (F k) w"

text \<open>The handler as written; \<open>sig\<close> is the signal number, \<open>si_int\<close> the payload.\<close>

definition sig_event_handler :: "int \<Rightarrow> int \<Rightarrow> world \<Rightarrow> world" where
  "sig_event_handler sig si_int w =
     (if sig = 44 \<and> Nga w = 1
      then (if si_int = 0 then w\<lparr>Resp := 1\<rparr> else w\<lparr>End := 1\<rparr>)
      else w)"

text \<open>The environment the program would have with the handler installed: each point
  handles receives and signals.\<close>

datatype env_event = Frame recv | Signal int int

fun env_step :: "env_event \<Rightarrow> world \<Rightarrow> world" where
  "env_step (Frame r) w = filter_recv r w"
| "env_step (Signal sig si_int) w = sig_event_handler sig si_int w"

definition signal_env :: "(nat \<Rightarrow> env_event list) \<Rightarrow> nat \<Rightarrow> world \<Rightarrow> world" where
  "signal_env G k w = fold env_step (G k) w"

section \<open>Concrete inputs\<close>

text \<open>A 60-byte frame with the marker at offset 28 and the pair (10, 20), captured with
  packet type \<open>ty\<close>.\<close>

definition announce_frame :: "byte \<Rightarrow> recv" where
  "announce_frame ty =
     \<lparr>n = 60, sll_pkttype = ty, buffer = (replicate 2048 0)[28 := 0x55, 29 := 20, 30 := 10]\<rparr>"

text \<open>A 32-byte frame without the marker, captured with packet type \<open>ty\<close>.\<close>

definition short_frame :: "byte \<Rightarrow> recv" where
  "short_frame ty = \<lparr>n = 32, sll_pkttype = ty, buffer = replicate 2048 0\<rparr>"

text \<open>Environments for the wait: nothing happens; a response starts and ends at once; a
  response starts and never ends.\<close>

definition quiet_env :: "nat \<Rightarrow> world \<Rightarrow> world" where
  "quiet_env k w = w"

definition answering_env :: "nat \<Rightarrow> world \<Rightarrow> world" where
  "answering_env k w = w\<lparr>Resp := 1, End := 1\<rparr>"

definition started_env :: "nat \<Rightarrow> world \<Rightarrow> world" where
  "started_env k w = w\<lparr>Resp := 1, End := 0\<rparr>"

text \<open>Two slots in use, and the table holding them in its first two places.\<close>

definition dev_a :: ClientIP_st where
  "dev_a = \<lparr>used = 1, next_to_last = 10, last_b = 20, sn = replicate 18 65\<rparr>"

definition dev_b :: ClientIP_st where
  "dev_b = \<lparr>used = 1, next_to_last = 10, last_b = 21, sn = replicate 18 66\<rparr>"

definition two_dev_world :: world where
  "two_dev_world =
     init_world\<lparr>Clients := dev_a # dev_b # replicate 62 zero_client, DeviceCount := 2\<rparr>"

section \<open>Vocabulary for the table\<close>

definition in_use :: "ClientIP_st \<Rightarrow> bool" where
  "in_use c \<longleftrightarrow> used c \<noteq> 0"

definition ip_pair :: "ClientIP_st \<Rightarrow> byte \<times> byte" where
  "ip_pair c = (next_to_last c, last_b c)"

text \<open>A sequence of drains, each finding the mailbox as the capture process left it.\<close>

fun drains :: "byte list list \<Rightarrow> world \<Rightarrow> world" where
  "drains [] w = w"
| "drains (m # ms) w = drains ms (drain (w\<lparr>NewClient := m\<rparr>))"

text \<open>A pending mailbox with the pair \<open>(a, b)\<close> and the serial number \<open>s\<close>.\<close>

definition mailbox :: "byte \<Rightarrow> byte \<Rightarrow> byte list \<Rightarrow> byte list" where
  "mailbox a b s = 1 # a # b # s"

text \<open>Clock readings that make two broadcasts due in a row.\<close>

definition clock_a :: clock where
  "clock_a = \<lparr>now = 5, tv_sec = 5, tv_usec = 1\<rparr>"

definition clock_b :: clock where
  "clock_b = \<lparr>now = 10, tv_sec = 10, tv_usec = 2\<rparr>"

section \<open>Invariants of the poll process\<close>

text \<open>The block \<^verbatim>\<open>topo\<close> has room for \<^verbatim>\<open>MAX_CLIENTS\<close> descriptors of 22 bytes, none of
  them flagged as a duplicate.\<close>

definition topo_ok :: "Topology_Dev_st list \<Rightarrow> bool" where
  "topo_ok devs \<longleftrightarrow>
     length devs = MAX_CLIENTS
     \<and> (\<forall>d\<in>set devs. length (serial_number d) = 18 \<and> duplicate_flag d = 0)"

text \<open>The table has \<^verbatim>\<open>MAX_CLIENTS\<close> slots and \<^verbatim>\<open>DeviceCount\<close> counts those in use.\<close>

definition poll_inv :: "world \<Rightarrow> bool" where
  "poll_inv w \<longleftrightarrow>
     length (Clients w) = MAX_CLIENTS
     \<and> unat (DeviceCount w) = length (filter in_use (Clients w))
     \<and> topo_ok (topo_devs w)"

text \<open>The state in which the broadcast block runs in the iteration that follows the
  iterations \<open>ts\<close>: the capture process has run and the mailbox has been drained.  And
  the payload of the datagram that the block sends from a state.\<close>

definition broadcast_state :: "(nat \<Rightarrow> recv list) \<Rightarrow> clock list \<Rightarrow> world" where
  "broadcast_state F ts =
     drain (env_act (capture_env F) (poll_loop (capture_env F) ts init_world))"

definition broadcast_msg :: "clock \<Rightarrow> world \<Rightarrow> byte list" where
  "broadcast_msg t w = payload (last (wire (topology t w)))"

section \<open>Vocabulary for the run of a wait\<close>

text \<open>The state after \<open>k\<close> further points at which the other process runs; the condition
  of the wait loop; the test of its \<^verbatim>\<open>break\<close>.\<close>

definition env_acts :: "(nat \<Rightarrow> world \<Rightarrow> world) \<Rightarrow> nat \<Rightarrow> world \<Rightarrow> world" where
  "env_acts E k w = (env_act E ^^ k) w"

definition loop_cond :: "world \<Rightarrow> nat \<Rightarrow> bool" where
  "loop_cond v idle \<longleftrightarrow> (if Resp v = 0 then idle < IDLE_POLL else idle < MAX_RESPONSE_TIME)"

definition break_test :: "world \<Rightarrow> bool" where
  "break_test v \<longleftrightarrow> End v \<noteq> 0 \<and> Resp v \<noteq> 0"

section \<open>The poll process with signal 44 left at its default action\<close>
















section \<open>Facts about the helpers\<close>

lemma length_memcpy: "length (memcpy dst d src s k) = length dst"
  by (induction k) simp_all

lemma nth_memcpy:
  "i < length dst \<Longrightarrow>
   memcpy dst d src s k ! i = (if d \<le> i \<and> i < d + k then src ! (s + (i - d)) else dst ! i)"
proof (induction k)
  case 0
  then show ?case by auto
next
  case (Suc k)
  show ?case
  proof (cases "i = d + k")
    case True
    with Suc.prems show ?thesis by (simp add: length_memcpy)
  next
    case False
    with Suc show ?thesis by (auto simp: length_memcpy)
  qed
qed

section \<open>The capture process: announce detection\<close>

lemma announce_published:
  assumes "length nc = 21" and "length buf = 2048"
  shows "memcpy (nc[Suc 0 := a, 2 := b, 0 := 1]) 3 buf 32 18 = 1 # a # b # take 18 (drop 32 buf)"
proof (rule nth_equalityI)
  show "length (memcpy (nc[Suc 0 := a, 2 := b, 0 := 1]) 3 buf 32 18)
        = length (1 # a # b # take 18 (drop 32 buf))"
    using assms by (simp add: length_memcpy)
next
  fix i assume "i < length (memcpy (nc[Suc 0 := a, 2 := b, 0 := 1]) 3 buf 32 18)"
  then have i: "i < 21" using assms by (simp add: length_memcpy)
  show "memcpy (nc[Suc 0 := a, 2 := b, 0 := 1]) 3 buf 32 18 ! i
        = (1 # a # b # take 18 (drop 32 buf)) ! i"
  proof (cases "i < 3")
    case True
    then have "i = 0 \<or> i = 1 \<or> i = 2" by arith
    then show ?thesis using assms by (auto simp: nth_memcpy)
  next
    case False
    define j where "j = i - 3"
    have j: "i = Suc (Suc (Suc j))" "j < 18" using False i by (simp_all add: j_def)
    show ?thesis unfolding j(1) using assms j(2) by (simp add: nth_memcpy)
  qed
qed

text \<open>C6.  With a 21-byte mailbox and the 2048-byte receive buffer: a frame of exactly 60
  bytes with 0x55 at offset 28 that finds \<^verbatim>\<open>NewClient[0] = 0\<close> leaves the mailbox holding
  1, the bytes at offsets 30 and 29, and the 18 bytes from offset 32; a frame that finds
  the flag nonzero leaves the mailbox as it was; and so does every frame that is not of
  60 bytes or lacks the marker.\<close>

theorem announce_detection:
  assumes "length (NewClient w) = 21" and "length (buffer r) = 2048"
  shows "(n r = 60 \<and> buffer r ! 28 = 0x55 \<and> NewClient w ! 0 = 0 \<longrightarrow>
            NewClient (filter_recv r w) =
              1 # buffer r ! 30 # buffer r ! 29 # take 18 (drop 32 (buffer r)))
       \<and> (NewClient w ! 0 \<noteq> 0 \<longrightarrow> NewClient (filter_recv r w) = NewClient w)
       \<and> (\<not> (n r = 60 \<and> buffer r ! 28 = 0x55) \<longrightarrow> NewClient (filter_recv r w) = NewClient w)"
  using assms by (simp add: filter_recv_def Let_def announce_published)

theorem announce_detection_witness:
  "length (NewClient init_world) = 21 \<and> length (buffer (announce_frame 0)) = 2048
   \<and> n (announce_frame 0) = 60 \<and> buffer (announce_frame 0) ! 28 = 0x55
   \<and> NewClient init_world ! 0 = 0
   \<and> NewClient (filter_recv (announce_frame 0) init_world) = 1 # 10 # 20 # replicate 18 0
   \<and> NewClient (init_world\<lparr>NewClient := 1 # replicate 20 7\<rparr>) ! 0 \<noteq> 0
   \<and> NewClient (filter_recv (announce_frame 0) (init_world\<lparr>NewClient := 1 # replicate 20 7\<rparr>))
       = 1 # replicate 20 7"
  using announce_detection [of init_world "announce_frame 0"]
        announce_detection [of "init_world\<lparr>NewClient := 1 # replicate 20 7\<rparr>" "announce_frame 0"]
  by (simp add: init_world_def announce_frame_def)

section \<open>The capture process: direction of a frame\<close>

text \<open>C5 as stated fails: an outgoing frame of 60 bytes with the marker is published to
  the mailbox like any other, because the test for an announce stands after the
  test of the direction, not inside its \<^verbatim>\<open>else\<close>.\<close>

theorem outgoing_announce_counterexample:
  "0 < n (announce_frame PACKET_OUTGOING)
   \<and> sll_pkttype (announce_frame PACKET_OUTGOING) = PACKET_OUTGOING
   \<and> NewClient (filter_recv (announce_frame PACKET_OUTGOING) init_world) \<noteq> NewClient init_world"
proof -
  have "NewClient (filter_recv (announce_frame PACKET_OUTGOING) init_world) ! 0 = 1"
    by (simp add: filter_recv_def announce_frame_def init_world_def Let_def
        nth_memcpy length_memcpy)
  moreover have "NewClient init_world ! 0 = 0"
    by (simp add: init_world_def)
  ultimately show ?thesis
    by (auto simp: announce_frame_def)
qed

text \<open>C5, amended.  For a received frame (\<open>0 < n\<close>): an outgoing frame prints \<^verbatim>\<open>OUT:\<close>,
  leaves \<^verbatim>\<open>*End\<close> and \<^verbatim>\<open>IdleTime\<close> as they were, and leaves the mailbox as it was unless
  the frame has 60 bytes, carries the marker and finds the mailbox empty; every other
  frame sets \<^verbatim>\<open>*End = 1\<close> and \<^verbatim>\<open>IdleTime = 0\<close>.\<close>

theorem capture_direction:
  assumes "0 < n r"
  shows "(sll_pkttype r = PACKET_OUTGOING \<longrightarrow>
            End (filter_recv r w) = End w \<and> IdleTime (filter_recv r w) = IdleTime w
            \<and> take (Suc (length (console w))) (console (filter_recv r w)) = console w @ [P_OUT]
            \<and> (\<not> (n r = 60 \<and> buffer r ! 28 = 0x55 \<and> NewClient w ! 0 = 0) \<longrightarrow>
                 NewClient (filter_recv r w) = NewClient w))
       \<and> (sll_pkttype r \<noteq> PACKET_OUTGOING \<longrightarrow>
            End (filter_recv r w) = 1 \<and> IdleTime (filter_recv r w) = 0)"
  using assms by (simp add: filter_recv_def Let_def)

theorem capture_direction_witness:
  "0 < n (short_frame PACKET_OUTGOING)
   \<and> sll_pkttype (short_frame PACKET_OUTGOING) = PACKET_OUTGOING
   \<and> \<not> (n (short_frame PACKET_OUTGOING) = 60 \<and> buffer (short_frame PACKET_OUTGOING) ! 28 = 0x55
          \<and> NewClient init_world ! 0 = 0)
   \<and> End (filter_recv (short_frame PACKET_OUTGOING) init_world) = 0
   \<and> take (Suc 0) (console (filter_recv (short_frame PACKET_OUTGOING) init_world)) = [P_OUT]
   \<and> NewClient (filter_recv (short_frame PACKET_OUTGOING) init_world) = NewClient init_world
   \<and> 0 < n (short_frame 0) \<and> sll_pkttype (short_frame 0) \<noteq> PACKET_OUTGOING
   \<and> End (filter_recv (short_frame 0) (init_world\<lparr>IdleTime := 9\<rparr>)) = 1
   \<and> IdleTime (filter_recv (short_frame 0) (init_world\<lparr>IdleTime := 9\<rparr>)) = 0"
  using capture_direction [of "short_frame PACKET_OUTGOING" init_world]
        capture_direction [of "short_frame 0" "init_world\<lparr>IdleTime := 9\<rparr>"]
  by (simp add: short_frame_def init_world_def PACKET_OUTGOING_def)

section \<open>The wait loop\<close>

lemma poll_wait_stop:
  "\<not> (if Resp (env_act E w) = 0 then idle < IDLE_POLL else idle < MAX_RESPONSE_TIME) \<Longrightarrow>
   poll_wait E w idle = (env_act E w, idle, False)"
  by (subst poll_wait.simps) (simp only: Let_def if_True if_False simp_thms)

lemma poll_wait_leave:
  "(if Resp (env_act E w) = 0 then idle < IDLE_POLL else idle < MAX_RESPONSE_TIME) \<Longrightarrow>
   End (env_act E (env_act E w)) \<noteq> 0 \<and> Resp (env_act E (env_act E w)) \<noteq> 0 \<Longrightarrow>
   poll_wait E w idle = (env_act E (env_act E w), Suc idle, True)"
  by (subst poll_wait.simps)
    (simp only: Let_def if_P if_not_P if_True if_False simp_thms Suc_eq_plus1 [symmetric])

lemma poll_wait_again:
  "(if Resp (env_act E w) = 0 then idle < IDLE_POLL else idle < MAX_RESPONSE_TIME) \<Longrightarrow>
   \<not> (End (env_act E (env_act E w)) \<noteq> 0 \<and> Resp (env_act E (env_act E w)) \<noteq> 0) \<Longrightarrow>
   poll_wait E w idle = poll_wait E (env_act E (env_act E w)) (Suc idle)"
  by (subst poll_wait.simps)
    (simp only: Let_def if_P if_not_P if_True if_False simp_thms Suc_eq_plus1 [symmetric])

text \<open>Induction along the iterations of the loop, one case per way through its body.\<close>

lemma poll_wait_cases [consumes 0, case_names stop leave again]:
  assumes "\<And>w idle.
      \<not> (if Resp (env_act E w) = 0 then idle < IDLE_POLL else idle < MAX_RESPONSE_TIME) \<Longrightarrow>
      poll_wait E w idle = (env_act E w, idle, False) \<Longrightarrow> P w idle"
    and "\<And>w idle.
      (if Resp (env_act E w) = 0 then idle < IDLE_POLL else idle < MAX_RESPONSE_TIME) \<Longrightarrow>
      End (env_act E (env_act E w)) \<noteq> 0 \<and> Resp (env_act E (env_act E w)) \<noteq> 0 \<Longrightarrow>
      poll_wait E w idle = (env_act E (env_act E w), Suc idle, True) \<Longrightarrow> P w idle"
    and "\<And>w idle.
      (if Resp (env_act E w) = 0 then idle < IDLE_POLL else idle < MAX_RESPONSE_TIME) \<Longrightarrow>
      \<not> (End (env_act E (env_act E w)) \<noteq> 0 \<and> Resp (env_act E (env_act E w)) \<noteq> 0) \<Longrightarrow>
      poll_wait E w idle = poll_wait E (env_act E (env_act E w)) (Suc idle) \<Longrightarrow>
      P (env_act E (env_act E w)) (Suc idle) \<Longrightarrow> P w idle"
  shows "P w idle"
proof (induction "MAX_RESPONSE_TIME - idle" arbitrary: w idle rule: less_induct)
  case less
  show ?case
  proof (cases "if Resp (env_act E w) = 0 then idle < IDLE_POLL else idle < MAX_RESPONSE_TIME")
    case False
    then show ?thesis by (rule assms(1)) (rule poll_wait_stop [OF False])
  next
    case go: True
    then have lt: "idle < MAX_RESPONSE_TIME"
      by (auto simp: IDLE_POLL_def MAX_RESPONSE_TIME_def split: if_splits)
    show ?thesis
    proof (cases "End (env_act E (env_act E w)) \<noteq> 0 \<and> Resp (env_act E (env_act E w)) \<noteq> 0")
      case True
      show ?thesis by (rule assms(2) [OF go True poll_wait_leave [OF go True]])
    next
      case False
      have "P (env_act E (env_act E w)) (Suc idle)"
        by (rule less) (use lt in simp)
      then show ?thesis by (rule assms(3) [OF go False poll_wait_again [OF go False]])
    qed
  qed
qed

lemma poll_wait_le:
  "idle \<le> MAX_RESPONSE_TIME \<Longrightarrow> fst (snd (poll_wait E w idle)) \<le> MAX_RESPONSE_TIME"
proof (induction w idle rule: poll_wait_cases [where E = E])
  case (stop w idle)
  then show ?case by simp
next
  case (leave w idle)
  then show ?case
    by (auto simp: IDLE_POLL_def MAX_RESPONSE_TIME_def split: if_splits)
next
  case (again w idle)
  then show ?case
    by (auto simp: IDLE_POLL_def MAX_RESPONSE_TIME_def split: if_splits)
qed

lemma poll_wait_break:
  "snd (snd (poll_wait E w idle)) \<Longrightarrow>
   End (fst (poll_wait E w idle)) \<noteq> 0 \<and> Resp (fst (poll_wait E w idle)) \<noteq> 0"
  by (induction w idle rule: poll_wait_cases [where E = E]) simp_all

lemma poll_wait_expired:
  "\<not> snd (snd (poll_wait E w idle)) \<Longrightarrow>
   (if Resp (fst (poll_wait E w idle)) = 0 then IDLE_POLL \<le> fst (snd (poll_wait E w idle))
    else MAX_RESPONSE_TIME \<le> fst (snd (poll_wait E w idle)))"
proof (induction w idle rule: poll_wait_cases [where E = E])
  case (stop w idle)
  then show ?case by (auto split: if_splits)
next
  case (leave w idle)
  then show ?case by simp
next
  case (again w idle)
  then show ?case by simp
qed

lemma Resp_env_act: "(\<And>k v. Resp (E k v) = Resp v) \<Longrightarrow> Resp (env_act E w) = Resp w"
  by (simp add: env_act_def)

lemma poll_wait_idle_ceiling:
  assumes E: "\<And>k v. Resp (E k v) = Resp v"
  shows "Resp w = 0 \<Longrightarrow> idle \<le> IDLE_POLL \<Longrightarrow>
    fst (snd (poll_wait E w idle)) = IDLE_POLL \<and> \<not> snd (snd (poll_wait E w idle))
    \<and> Resp (fst (poll_wait E w idle)) = 0"
proof (induction w idle rule: poll_wait_cases [where E = E])
  case (stop w idle)
  then show ?case by (simp add: Resp_env_act [OF E])
next
  case (leave w idle)
  then show ?case by (simp add: Resp_env_act [OF E])
next
  case (again w idle)
  then show ?case by (simp add: Resp_env_act [OF E])
qed

lemma poll_wait_response_ceiling:
  assumes E: "\<And>k v. Resp (E k v) \<noteq> 0 \<and> End (E k v) = 0"
  shows "idle \<le> MAX_RESPONSE_TIME \<Longrightarrow>
    fst (snd (poll_wait E w idle)) = MAX_RESPONSE_TIME \<and> \<not> snd (snd (poll_wait E w idle))"
proof (induction w idle rule: poll_wait_cases [where E = E])
  case (stop w idle)
  then show ?case using E by (simp add: env_act_def)
next
  case (leave w idle)
  then show ?case using E by (simp add: env_act_def)
next
  case (again w idle)
  then show ?case using E by (simp add: env_act_def)
qed

lemma env_acts_simps:
  "env_acts E 0 w = w" "env_acts E (Suc k) w = env_act E (env_acts E k w)"
  by (simp_all add: env_acts_def)

lemma env_acts_shift: "env_acts E k (env_act E (env_act E w)) = env_acts E (Suc (Suc k)) w"
  by (simp add: env_acts_def funpow_swap1)

lemma tick_env_act: "tick (env_act E w) = tick w + 1"
  by (simp add: env_act_def)

lemma tick_env_acts: "tick (env_acts E k w) = tick w + k"
  by (induction k) (simp_all add: env_acts_simps tick_env_act)

text \<open>The run of the wait, point by point: the condition of the loop is read after an odd
  number of points, the sleep is the point that follows, and the \<^verbatim>\<open>break\<close> test reads
  after the sleep.\<close>

lemma poll_wait_trace:
  "\<exists>w' d brk.
     poll_wait E w i0 = (w', i0 + d, brk)
     \<and> (brk \<longrightarrow> 0 < d)
     \<and> w' = env_acts E (2 * d + (if brk then 0 else 1)) w
     \<and> (\<forall>j<d. loop_cond (env_acts E (2 * j + 1) w) (i0 + j)
               \<and> (Suc j < d \<or> \<not> brk \<longrightarrow> \<not> break_test (env_acts E (2 * j + 2) w)))"
proof (induction w i0 rule: poll_wait_cases [where E = E])
  case (stop w i0)
  have "poll_wait E w i0 = (env_acts E 1 w, i0 + 0, False)"
    by (simp add: stop env_acts_simps)
  then show ?case by (intro exI [of _ "env_acts E 1 w"] exI [of _ 0] exI [of _ False]) simp
next
  case (leave w i0)
  have c: "loop_cond (env_acts E 1 w) i0"
    using leave(1) by (simp add: loop_cond_def env_acts_simps)
  have "poll_wait E w i0 = (env_acts E 2 w, i0 + 1, True)"
    by (simp add: leave(3) env_acts_simps numeral_2_eq_2)
  with c show ?case
    by (intro exI [of _ "env_acts E 2 w"] exI [of _ 1] exI [of _ True]) simp
next
  case (again w i0)
  let ?w2 = "env_act E (env_act E w)"
  from again.IH obtain w' d brk where r: "poll_wait E ?w2 (Suc i0) = (w', Suc i0 + d, brk)"
    and b: "brk \<longrightarrow> 0 < d"
    and st: "w' = env_acts E (2 * d + (if brk then 0 else 1)) ?w2"
    and tr: "\<And>j. j < d \<Longrightarrow> loop_cond (env_acts E (2 * j + 1) ?w2) (Suc i0 + j)
               \<and> (Suc j < d \<or> \<not> brk \<longrightarrow> \<not> break_test (env_acts E (2 * j + 2) ?w2))"
    by blast
  have c0: "loop_cond (env_acts E 1 w) i0"
    using again.hyps(1) by (simp add: loop_cond_def env_acts_simps)
  have b0: "\<not> break_test (env_acts E 2 w)"
    using again.hyps(2) by (simp add: break_test_def env_acts_simps numeral_2_eq_2)
  have 1: "poll_wait E w i0 = (w', i0 + Suc d, brk)"
    by (simp add: again.hyps(3) r)
  have 2: "w' = env_acts E (2 * Suc d + (if brk then 0 else 1)) w"
    unfolding st env_acts_shift by (rule arg_cong [where f = "\<lambda>k. env_acts E k w"]) simp
  have 3: "loop_cond (env_acts E (2 * j + 1) w) (i0 + j)
      \<and> (Suc j < Suc d \<or> \<not> brk \<longrightarrow> \<not> break_test (env_acts E (2 * j + 2) w))"
    if j: "j < Suc d" for j
  proof (cases j)
    case 0
    with c0 b0 show ?thesis by (simp add: numeral_2_eq_2)
  next
    case (Suc j')
    with j have "j' < d" by simp
    from tr [OF this] have "loop_cond (env_acts E (Suc (Suc (2 * j' + 1))) w) (Suc i0 + j')
        \<and> (Suc j' < d \<or> \<not> brk \<longrightarrow> \<not> break_test (env_acts E (Suc (Suc (2 * j' + 2))) w))"
      unfolding env_acts_shift .
    then show ?thesis
      unfolding Suc by simp
  qed
  from 1 2 3 show ?case
    by (intro exI [of _ w'] exI [of _ "Suc d"] exI [of _ brk]) simp
qed


text \<open>C1.  Whatever the other process and the driver do to the shared cells, a wait
  started at \<open>idle = 0\<close> makes at most \<^verbatim>\<open>MAX_RESPONSE_TIME\<close> = max(150, 600) sleeps of
  1 ms.  It is left by \<^verbatim>\<open>break\<close> only with \<^verbatim>\<open>*End\<close> and \<^verbatim>\<open>*Resp\<close> both nonzero.  Left
  otherwise, a budget has run out: \<^verbatim>\<open>IDLE_POLL\<close> if \<^verbatim>\<open>*Resp\<close> was last read as 0,
  \<^verbatim>\<open>MAX_RESPONSE_TIME\<close> if not.  While \<^verbatim>\<open>*Resp\<close> stays 0 the wait ends after exactly 150
  sleeps, also when \<^verbatim>\<open>*End\<close> is set; with \<^verbatim>\<open>*Resp\<close> set and \<^verbatim>\<open>*End\<close> clear it ends after
  exactly 600.  The count \<open>idle\<close> is the number of sleeps that took place: the wait
  passes two points per sleep (the read of the condition and the sleep itself) and one
  more for the read that ends it, unless it ends by \<^verbatim>\<open>break\<close>, and the final state is the
  state after exactly these points.  Before each of the \<open>idle\<close> sleeps the condition
  was read as true for the sleeps made so far, and after each sleep but the last the
  \<^verbatim>\<open>break\<close> test was read as false (after the last one too, if the wait did not end by
  \<^verbatim>\<open>break\<close>); a \<^verbatim>\<open>break\<close> comes only after a sleep.\<close>

theorem poll_wait_dual_budget:
  "(case poll_wait E w 0 of (w', idle, brk) \<Rightarrow>
      idle \<le> max IDLE_POLL MAX_RESPONSE_TIME
    \<and> (brk \<longrightarrow> End w' \<noteq> 0 \<and> Resp w' \<noteq> 0)
    \<and> (\<not> brk \<longrightarrow> (if Resp w' = 0 then IDLE_POLL \<le> idle else idle = MAX_RESPONSE_TIME))
    \<and> ((\<forall>k v. Resp (E k v) = Resp v) \<and> Resp w = 0 \<longrightarrow> idle = IDLE_POLL \<and> \<not> brk)
    \<and> ((\<forall>k v. Resp (E k v) \<noteq> 0 \<and> End (E k v) = 0) \<longrightarrow> idle = MAX_RESPONSE_TIME \<and> \<not> brk)
    \<and> tick w' = tick w + 2 * idle + (if brk then 0 else 1)
    \<and> w' = env_acts E (2 * idle + (if brk then 0 else 1)) w
    \<and> (brk \<longrightarrow> 0 < idle)
    \<and> (\<forall>j<idle.
          (if Resp (env_acts E (2 * j + 1) w) = 0 then j < IDLE_POLL else j < MAX_RESPONSE_TIME)
          \<and> (Suc j < idle \<or> \<not> brk \<longrightarrow>
               \<not> (End (env_acts E (2 * j + 2) w) \<noteq> 0 \<and> Resp (env_acts E (2 * j + 2) w) \<noteq> 0))))"
proof -
  from poll_wait_trace [of E w 0] obtain w' idle brk
    where r: "poll_wait E w 0 = (w', idle, brk)"
      and b: "brk \<longrightarrow> 0 < idle"
      and st: "w' = env_acts E (2 * idle + (if brk then 0 else 1)) w"
      and tr: "\<forall>j<idle. loop_cond (env_acts E (2 * j + 1) w) j
               \<and> (Suc j < idle \<or> \<not> brk \<longrightarrow> \<not> break_test (env_acts E (2 * j + 2) w))"
    by auto
  have ti: "tick w' = tick w + 2 * idle + (if brk then 0 else 1)"
    unfolding st tick_env_acts by simp
  have le: "idle \<le> MAX_RESPONSE_TIME"
    using poll_wait_le [of 0 E w] by (simp add: r)
  have "brk \<longrightarrow> End w' \<noteq> 0 \<and> Resp w' \<noteq> 0"
    using poll_wait_break [of E w 0] by (simp add: r)
  moreover have "\<not> brk \<longrightarrow> (if Resp w' = 0 then IDLE_POLL \<le> idle else idle = MAX_RESPONSE_TIME)"
    using poll_wait_expired [of E w 0] le by (auto simp: r)
  moreover have "(\<forall>k v. Resp (E k v) = Resp v) \<and> Resp w = 0 \<longrightarrow> idle = IDLE_POLL \<and> \<not> brk"
    using poll_wait_idle_ceiling [of E w 0] by (simp add: r)
  moreover have "(\<forall>k v. Resp (E k v) \<noteq> 0 \<and> End (E k v) = 0) \<longrightarrow> idle = MAX_RESPONSE_TIME \<and> \<not> brk"
    using poll_wait_response_ceiling [of E 0 w] by (simp add: r)
  moreover note ti b tr [unfolded loop_cond_def break_test_def]
  moreover have "idle \<le> max IDLE_POLL MAX_RESPONSE_TIME"
    using le by simp
  ultimately show ?thesis
    unfolding r prod.case using st by blast
qed

theorem poll_wait_dual_budget_witness:
  "snd (snd (poll_wait answering_env init_world 0))
   \<and> End (fst (poll_wait answering_env init_world 0)) \<noteq> 0
   \<and> Resp (fst (poll_wait answering_env init_world 0)) \<noteq> 0
   \<and> fst (snd (poll_wait answering_env init_world 0)) = 1
   \<and> tick (fst (poll_wait answering_env init_world 0)) = 2
   \<and> fst (snd (poll_wait quiet_env init_world 0)) = 150
   \<and> tick (fst (poll_wait quiet_env init_world 0)) = 301
   \<and> (0::nat) < 150 \<and> Resp (env_acts quiet_env (2 * 0 + 1) init_world) = 0
   \<and> fst (snd (poll_wait started_env init_world 0)) = 600
   \<and> tick (fst (poll_wait started_env init_world 0)) = 1201"
proof -
  have l: "poll_wait answering_env init_world 0
          = (env_act answering_env (env_act answering_env init_world), Suc 0, True)"
    by (rule poll_wait_leave)
      (simp_all add: env_act_def answering_env_def init_world_def IDLE_POLL_def
        MAX_RESPONSE_TIME_def)
  then have a: "snd (snd (poll_wait answering_env init_world 0))"
    "fst (snd (poll_wait answering_env init_world 0)) = 1"
    by simp_all
  have t0: "tick init_world = 0"
    by (simp add: init_world_def)
  have 1: "End (fst (poll_wait answering_env init_world 0)) \<noteq> 0
      \<and> Resp (fst (poll_wait answering_env init_world 0)) \<noteq> 0
      \<and> tick (fst (poll_wait answering_env init_world 0)) = 2"
    using poll_wait_dual_budget [of answering_env init_world] a
    by (auto simp: t0 split: prod.splits)
  have 2: "fst (snd (poll_wait quiet_env init_world 0)) = 150
      \<and> tick (fst (poll_wait quiet_env init_world 0)) = 301"
    using poll_wait_dual_budget [of quiet_env init_world]
    by (auto simp: quiet_env_def init_world_def IDLE_POLL_def split: prod.splits)
  have 3: "fst (snd (poll_wait started_env init_world 0)) = 600
      \<and> tick (fst (poll_wait started_env init_world 0)) = 1201"
    using poll_wait_dual_budget [of started_env init_world]
    by (auto simp: started_env_def MAX_RESPONSE_TIME_def t0 split: prod.splits)
  have 4: "Resp (env_acts quiet_env (2 * 0 + 1) init_world) = 0"
    by (simp add: env_acts_simps env_act_def quiet_env_def init_world_def)
  from a 1 2 3 4 show ?thesis by simp
qed

section \<open>What the environment and the wait leave alone\<close>

lemma env_act_inv:
  assumes "\<And>k v. I v \<Longrightarrow> I (E k v)" and "\<And>v t. I v \<Longrightarrow> I (v\<lparr>tick := t\<rparr>)" and "I w"
  shows "I (env_act E w)"
  using assms by (simp add: env_act_def)

lemma poll_wait_inv:
  assumes E: "\<And>k v. I v \<Longrightarrow> I (E k v)" and T: "\<And>v t. I v \<Longrightarrow> I (v\<lparr>tick := t\<rparr>)"
  shows "I w \<Longrightarrow> I (fst (poll_wait E w idle))"
proof (induction w idle rule: poll_wait_cases [where E = E])
  case (stop w idle)
  then show ?case by (simp add: env_act_inv [of I, OF E T])
next
  case (leave w idle)
  then show ?case by (simp add: env_act_inv [of I, OF E T])
next
  case (again w idle)
  then show ?case by (simp add: env_act_inv [of I, OF E T])
qed

lemma fold_filter_recv_inv:
  assumes "\<And>r v. I v \<Longrightarrow> I (filter_recv r v)"
  shows "I w \<Longrightarrow> I (fold filter_recv rs w)"
  by (induction rs arbitrary: w) (auto intro: assms)

lemma capture_env_inv:
  assumes "\<And>r v. I v \<Longrightarrow> I (filter_recv r v)" and "I w"
  shows "I (capture_env F k w)"
  unfolding capture_env_def using assms by (rule fold_filter_recv_inv)

lemma quiet_env_inv: "I w \<Longrightarrow> I (quiet_env k w)"
  by (simp add: quiet_env_def)

lemma filter_recv_poll_cells:
  "Resp (filter_recv r w) = Resp w" "Nga (filter_recv r w) = Nga w"
  "wire (filter_recv r w) = wire w" "Clients (filter_recv r w) = Clients w"
  "DeviceCount (filter_recv r w) = DeviceCount w" "tick (filter_recv r w) = tick w"
  by (simp_all add: filter_recv_def Let_def)


subsection \<open>Arming\<close>

lemma poll_client_Nga:
  assumes E: "\<And>k v. Nga v = 1 \<Longrightarrow> Nga (E k v) = 1" and c: "used c \<noteq> 0"
  shows "Nga (poll_client E i c w) = 1"
proof -
  have s: "Nga (poll_send E i c w) = 1"
    by (simp add: poll_send_def Let_def)
  have "Nga (fst (poll_wait E (poll_send E i c w) 0)) = 1"
    by (rule poll_wait_inv [where I = "\<lambda>v. Nga v = 1"]) (simp_all add: E s)
  then have "Nga (env_act E (fst (poll_wait E (poll_send E i c w) 0))) = 1"
    by (intro env_act_inv [where I = "\<lambda>v. Nga v = 1"]) (simp_all add: E)
  then show ?thesis
    using c by (cases "poll_wait E (poll_send E i c w) 0") (simp add: poll_client_def Let_def)
qed

lemma poll_client_Nga_kept:
  assumes E: "\<And>k v. Nga v = 1 \<Longrightarrow> Nga (E k v) = 1" and "Nga w = 1"
  shows "Nga (poll_client E i c w) = 1"
  using assms poll_client_Nga [of E c i w] by (cases "used c = 0") (simp_all add: poll_client_def)

lemma poll_clients_Nga_kept:
  assumes E: "\<And>k v. Nga v = 1 \<Longrightarrow> Nga (E k v) = 1"
  shows "Nga w = 1 \<Longrightarrow> Nga (poll_clients E i cs w) = 1"
  by (induction cs arbitrary: i w) (simp_all add: poll_client_Nga_kept [OF E])

text \<open>C3 as stated fails: \<^verbatim>\<open>*Nga = 0\<close> stands after the loop over the table, not in
  its body.  When the poll of the first of two devices is over, which is the state in
  which the poll of the second begins, \<^verbatim>\<open>*Nga\<close> is still 1.\<close>

theorem disarm_counterexample:
  "Clients two_dev_world = dev_a # dev_b # replicate 62 zero_client
   \<and> used dev_a \<noteq> 0 \<and> used dev_b \<noteq> 0
   \<and> Nga (poll_client quiet_env 0 dev_a two_dev_world) \<noteq> 0"
proof -
  have "Nga (poll_client quiet_env 0 dev_a two_dev_world) = 1"
    by (rule poll_client_Nga) (simp_all add: quiet_env_def dev_a_def)
  then show ?thesis
    by (simp add: two_dev_world_def dev_a_def dev_b_def)
qed

lemma capture_env_Nga: "Nga (capture_env F k v) = Nga v"
  by (rule capture_env_inv [where I = "\<lambda>u. Nga u = Nga v"]) (simp_all add: filter_recv_poll_cells)

lemma env_acts_capture_Nga: "Nga (env_acts (capture_env F) k v) = Nga v"
  by (induction k) (simp_all add: env_acts_simps env_act_def capture_env_Nga)

text \<open>C3, amended.  With the capture process running beside it, the poll process leaves
  \<^verbatim>\<open>*Nga = 0\<close> at the end of every round.  Within the round, \<^verbatim>\<open>*Nga\<close> is 1 when the
  statements before the wait of a device poll are done, it stays 1 at every point \<open>k\<close>
  of the wait that follows, it is 1 when the poll of a slot in use is over, and still 1
  after any further slots \<open>cs\<close> of the round.\<close>

theorem disarm_after_round:
  "Nga (poll_round (capture_env F) w) = 0
   \<and> Nga (poll_send (capture_env F) i c w) = 1
   \<and> (\<forall>k. Nga (env_acts (capture_env F) k (poll_send (capture_env F) i c w)) = 1)
   \<and> Nga (fst (poll_wait (capture_env F) (poll_send (capture_env F) i c w) 0)) = 1
   \<and> (used c \<noteq> 0 \<longrightarrow>
        Nga (poll_client (capture_env F) i c w) = 1
        \<and> Nga (poll_clients (capture_env F) i (c # cs) w) = 1)"
proof -
  have E: "Nga v = 1 \<Longrightarrow> Nga (capture_env F k v) = 1" for k v
    by (simp add: capture_env_Nga)
  have s: "Nga (poll_send (capture_env F) i c w) = 1"
    by (simp add: poll_send_def Let_def)
  have "Nga (fst (poll_wait (capture_env F) (poll_send (capture_env F) i c w) 0)) = 1"
    by (rule poll_wait_inv [where I = "\<lambda>v. Nga v = 1"]) (simp_all add: E s)
  then show ?thesis
    by (simp add: poll_round_def poll_client_Nga [OF E] poll_clients_Nga_kept [OF E] s
        env_acts_capture_Nga)
qed

theorem disarm_after_round_witness:
  "used dev_a \<noteq> 0
   \<and> Nga (poll_send (capture_env (\<lambda>k. [announce_frame 0])) 0 dev_a two_dev_world) = 1
   \<and> Nga (env_acts (capture_env (\<lambda>k. [announce_frame 0])) 7
           (poll_send (capture_env (\<lambda>k. [announce_frame 0])) 0 dev_a two_dev_world)) = 1
   \<and> Nga (poll_client (capture_env (\<lambda>k. [announce_frame 0])) 0 dev_a two_dev_world) = 1
   \<and> Nga (poll_clients (capture_env (\<lambda>k. [announce_frame 0])) 0 (Clients two_dev_world)
            two_dev_world) = 1
   \<and> Nga (poll_round (capture_env (\<lambda>k. [announce_frame 0])) two_dev_world) = 0"
  using disarm_after_round [of "\<lambda>k. [announce_frame 0]" two_dev_world 0 dev_a
      "dev_b # replicate 62 zero_client"]
  by (simp add: dev_a_def two_dev_world_def)

subsection \<open>The poll datagram\<close>

lemma poll_client_wire:
  assumes E: "\<And>k v x. wire v = x \<Longrightarrow> wire (E k v) = x" and c: "used c \<noteq> 0"
  shows "wire (poll_client E i c w) =
    wire w @ [\<lparr>dest = sockaddr_s, payload = [169, 254, next_to_last c, last_b c]\<rparr>]"
    (is "_ = ?x")
proof -
  have 1: "wire (env_act E (w\<lparr>Resp := 0\<rparr>)) = wire w"
    by (rule env_act_inv [where I = "\<lambda>v. wire v = wire w"]) (simp_all add: E)
  have 2: "wire (env_act E ((env_act E (w\<lparr>Resp := 0\<rparr>))\<lparr>End := 0\<rparr>)) = wire w"
    by (rule env_act_inv [where I = "\<lambda>v. wire v = wire w"]) (simp_all add: E 1)
  have s: "wire (poll_send E i c w) = ?x"
    by (simp add: poll_send_def Let_def 2)
  have "wire (fst (poll_wait E (poll_send E i c w) 0)) = ?x"
    by (rule poll_wait_inv [where I = "\<lambda>v. wire v = ?x"]) (simp_all add: E s)
  then have "wire (env_act E (fst (poll_wait E (poll_send E i c w) 0))) = ?x"
    by (intro env_act_inv [where I = "\<lambda>v. wire v = ?x"]) (simp_all add: E)
  then show ?thesis
    using c by (cases "poll_wait E (poll_send E i c w) 0") (simp add: poll_client_def Let_def)
qed

text \<open>C4 as stated fails: the datagram that polls the device 169.254.10.20 is not sent to
  that address.\<close>

theorem poll_destination_counterexample:
  "used dev_a \<noteq> 0
   \<and> dest (last (wire (poll_client quiet_env 0 dev_a init_world)))
       \<noteq> \<lparr>sin_port = 30000, sin_addr = [169, 254, next_to_last dev_a, last_b dev_a]\<rparr>"
proof -
  have "wire (poll_client quiet_env 0 dev_a init_world) =
    wire init_world @ [\<lparr>dest = sockaddr_s, payload = [169, 254, next_to_last dev_a, last_b dev_a]\<rparr>]"
    by (rule poll_client_wire) (simp_all add: quiet_env_def dev_a_def)
  then show ?thesis
    by (simp add: dev_a_def sockaddr_s_def)
qed

text \<open>C4, amended.  The poll of a slot in use sends exactly one datagram, to
  169.254.255.255 on port 30000; the address of the device, 169.254.octet3.octet4, is the
  four bytes of its payload.\<close>

theorem poll_destination:
  "used c \<noteq> 0 \<Longrightarrow>
   wire (poll_client (capture_env F) i c w) =
     wire w @ [\<lparr>dest = \<lparr>sin_port = 30000, sin_addr = [169, 254, 255, 255]\<rparr>,
                payload = [169, 254, next_to_last c, last_b c]\<rparr>]"
proof -
  assume c: "used c \<noteq> 0"
  have E: "wire v = x \<Longrightarrow> wire (capture_env F k v) = x" for k v x
    by (rule capture_env_inv [where I = "\<lambda>v. wire v = x"]) (simp_all add: filter_recv_poll_cells)
  show ?thesis
    using poll_client_wire [where E = "capture_env F", OF E c, of i w] by (simp add: sockaddr_s_def BROADCAST_PORT_def)
qed

theorem poll_destination_witness:
  "used dev_a \<noteq> 0
   \<and> wire (poll_client (capture_env (\<lambda>k. [announce_frame 0])) 0 dev_a init_world) =
       [\<lparr>dest = \<lparr>sin_port = 30000, sin_addr = [169, 254, 255, 255]\<rparr>,
         payload = [169, 254, 10, 20]\<rparr>]"
  using poll_destination [of dev_a "\<lambda>k. [announce_frame 0]" 0 init_world]
  by (simp add: dev_a_def init_world_def)

section \<open>No response start beside the capture process alone\<close>




lemma poll_client_wait_quiet:
  assumes E: "\<And>k v. Resp (E k v) = Resp v" and w: "Resp w = 0"
  shows "case poll_wait E w 0 of (w', idle, brk) \<Rightarrow>
           idle = IDLE_POLL \<and> \<not> brk \<and> Resp w' = 0 \<and> Resp (env_act E w') \<noteq> 1"
  using poll_wait_idle_ceiling [of E w 0, OF E w]
  by (cases "poll_wait E w 0") (simp add: Resp_env_act [OF E])







text \<open>For contrast: the handler, were it installed, would start a response while a poll
  is armed, and a wait that sees start and end leaves by \<^verbatim>\<open>break\<close> after one sleep.\<close>

lemma handler_would_set_Resp:
  "Nga w = 1 \<Longrightarrow> Resp (sig_event_handler 44 0 w) = 1"
  by (simp add: sig_event_handler_def)

lemma handler_would_end_wait:
  "poll_wait (signal_env (\<lambda>k. [Signal 44 0, Signal 44 1]))
     (poll_send (signal_env (\<lambda>k. [Signal 44 0, Signal 44 1])) i c w) 0
   = (env_act (signal_env (\<lambda>k. [Signal 44 0, Signal 44 1]))
       (env_act (signal_env (\<lambda>k. [Signal 44 0, Signal 44 1]))
         (poll_send (signal_env (\<lambda>k. [Signal 44 0, Signal 44 1])) i c w)), Suc 0, True)"
  by (rule poll_wait_leave)
    (simp_all add: env_act_def signal_env_def sig_event_handler_def poll_send_def Let_def
      IDLE_POLL_def MAX_RESPONSE_TIME_def)

section \<open>The table under discovery drains\<close>

lemma find_existing_iff:
  "find_existing nc cs \<longleftrightarrow> (nc ! 1, nc ! 2) \<in> set (map ip_pair (filter in_use cs))"
  by (induction cs) (auto simp: in_use_def ip_pair_def)

text \<open>The second loop, slot by slot.\<close>

lemma insert_free_at_free:
  "used c = 0 \<Longrightarrow>
   insert_free nc (c # cs) =
     (c\<lparr>next_to_last := nc ! 1, last_b := nc ! 2, sn := memcpy (sn c) 0 nc 3 18, used := 1\<rparr> # cs,
      True)"
  by simp

lemma insert_free_past_used:
  "used c \<noteq> 0 \<Longrightarrow> fst (insert_free nc (c # cs)) = c # fst (insert_free nc cs)"
  "used c \<noteq> 0 \<Longrightarrow> snd (insert_free nc (c # cs)) = snd (insert_free nc cs)"
  by (simp_all split: prod.splits)

lemma insert_free_length: "length (fst (insert_free nc cs)) = length cs"
proof (induction cs)
  case Nil
  then show ?case by simp
next
  case (Cons c cs)
  then show ?case
    by (cases "used c = 0") (simp_all add: insert_free_at_free insert_free_past_used del: insert_free.simps)
qed

lemma insert_free_full: "\<not> snd (insert_free nc cs) \<Longrightarrow> fst (insert_free nc cs) = cs"
proof (induction cs)
  case Nil
  then show ?case by simp
next
  case (Cons c cs)
  then show ?case
    by (cases "used c = 0") (simp_all add: insert_free_at_free insert_free_past_used del: insert_free.simps)
qed

lemma insert_free_count:
  "snd (insert_free nc cs) \<Longrightarrow>
   length (filter in_use (fst (insert_free nc cs))) = Suc (length (filter in_use cs))"
proof (induction cs)
  case Nil
  then show ?case by simp
next
  case (Cons c cs)
  then show ?case
    by (cases "used c = 0")
      (simp_all add: insert_free_at_free insert_free_past_used in_use_def del: insert_free.simps)
qed

lemma insert_free_pairs:
  "snd (insert_free nc cs) \<Longrightarrow>
   set (map ip_pair (filter in_use (fst (insert_free nc cs))))
     = insert (nc ! 1, nc ! 2) (set (map ip_pair (filter in_use cs)))"
proof (induction cs)
  case Nil
  then show ?case by simp
next
  case (Cons c cs)
  show ?case
  proof (cases "used c = 0")
    case True
    then show ?thesis by (simp add: in_use_def ip_pair_def)
  next
    case False
    with Cons show ?thesis
      by (simp add: insert_free_past_used in_use_def insert_commute del: insert_free.simps)
  qed
qed

lemma insert_free_distinct:
  "snd (insert_free nc cs) \<Longrightarrow> distinct (map ip_pair (filter in_use cs)) \<Longrightarrow>
   (nc ! 1, nc ! 2) \<notin> set (map ip_pair (filter in_use cs)) \<Longrightarrow>
   distinct (map ip_pair (filter in_use (fst (insert_free nc cs))))"
proof (induction cs)
  case Nil
  then show ?case by simp
next
  case (Cons c cs)
  show ?case
  proof (cases "used c = 0")
    case True
    with Cons.prems show ?thesis by (simp add: in_use_def ip_pair_def)
  next
    case False
    then have u: "in_use c" by (simp add: in_use_def)
    from False Cons.prems have s: "snd (insert_free nc cs)"
      by (simp add: insert_free_past_used del: insert_free.simps)
    from u Cons.prems have d: "distinct (map ip_pair (filter in_use cs))"
      and n: "(nc ! 1, nc ! 2) \<notin> set (map ip_pair (filter in_use cs))"
      and c: "ip_pair c \<notin> set (map ip_pair (filter in_use cs))" "ip_pair c \<noteq> (nc ! 1, nc ! 2)"
      by auto
    from c insert_free_pairs [OF s]
    have "ip_pair c \<notin> set (map ip_pair (filter in_use (fst (insert_free nc cs))))"
      by simp
    with Cons.IH [OF s d n] False u show ?thesis
      by (simp add: insert_free_past_used del: insert_free.simps)
  qed
qed

lemma insert_free_keeps:
  "i < length cs \<Longrightarrow> in_use (cs ! i) \<Longrightarrow> fst (insert_free nc cs) ! i = cs ! i"
proof (induction cs arbitrary: i)
  case Nil
  then show ?case by simp
next
  case (Cons c cs)
  show ?case
  proof (cases "used c = 0")
    case True
    with Cons.prems show ?thesis by (cases i) (simp_all add: in_use_def)
  next
    case False
    with Cons show ?thesis
      by (cases i) (simp_all add: insert_free_at_free insert_free_past_used del: insert_free.simps)
  qed
qed

lemma drain_Clients:
  "Clients (drain w) =
     (if NewClient w ! 0 \<noteq> 0 \<and> \<not> find_existing (NewClient w) (Clients w)
      then fst (insert_free (NewClient w) (Clients w)) else Clients w)"
  using insert_free_full [of "NewClient w" "Clients w"]
  by (auto simp: drain_def Let_def split: prod.splits)

lemma drain_DeviceCount:
  "DeviceCount (drain w) =
     (if NewClient w ! 0 \<noteq> 0 \<and> \<not> find_existing (NewClient w) (Clients w)
         \<and> snd (insert_free (NewClient w) (Clients w))
      then DeviceCount w + 1 else DeviceCount w)"
  by (auto simp: drain_def Let_def split: prod.splits)

lemma drain_length: "length (Clients (drain w)) = length (Clients w)"
  by (simp add: drain_Clients insert_free_length)

lemma drain_distinct:
  "distinct (map ip_pair (filter in_use (Clients w))) \<Longrightarrow>
   distinct (map ip_pair (filter in_use (Clients (drain w))))"
proof (cases "snd (insert_free (NewClient w) (Clients w))")
  case True
  assume "distinct (map ip_pair (filter in_use (Clients w)))"
  with True show ?thesis
    by (simp add: drain_Clients insert_free_distinct find_existing_iff)
next
  case False
  assume "distinct (map ip_pair (filter in_use (Clients w)))"
  with False show ?thesis
    by (simp add: drain_Clients insert_free_full)
qed

lemma drain_keeps:
  "i < length (Clients w) \<Longrightarrow> in_use (Clients w ! i) \<Longrightarrow> Clients (drain w) ! i = Clients w ! i"
  by (simp add: drain_Clients insert_free_keeps)

lemma drains_append: "drains (ms @ ms') w = drains ms' (drains ms w)"
  by (induction ms arbitrary: w) simp_all

lemma drains_length: "length (Clients (drains ms w)) = length (Clients w)"
  by (induction ms arbitrary: w) (simp_all add: drain_length)

lemma drains_distinct:
  "distinct (map ip_pair (filter in_use (Clients w))) \<Longrightarrow>
   distinct (map ip_pair (filter in_use (Clients (drains ms w))))"
proof (induction ms arbitrary: w)
  case Nil
  then show ?case by simp
next
  case (Cons m ms)
  have "distinct (map ip_pair (filter in_use (Clients (drain (w\<lparr>NewClient := m\<rparr>)))))"
    by (rule drain_distinct) (use Cons.prems in simp)
  then show ?case by (simp add: Cons.IH)
qed

lemma drains_keeps:
  "i < length (Clients w) \<Longrightarrow> in_use (Clients w ! i) \<Longrightarrow>
   Clients (drains ms w) ! i = Clients w ! i"
proof (induction ms arbitrary: w)
  case Nil
  then show ?case by simp
next
  case (Cons m ms)
  let ?w = "drain (w\<lparr>NewClient := m\<rparr>)"
  have k: "Clients ?w ! i = Clients w ! i"
    using drain_keeps [of i "w\<lparr>NewClient := m\<rparr>"] Cons.prems by simp
  have "Clients (drains ms ?w) ! i = Clients ?w ! i"
    by (rule Cons.IH) (use Cons.prems k in \<open>simp_all add: drain_length\<close>)
  with k show ?case by simp
qed

lemma init_table:
  "length (Clients init_world) = 64" "filter in_use (Clients init_world) = []"
  by (simp_all add: init_world_def MAX_CLIENTS_def in_use_def zero_client_def)

text \<open>C2.  After any sequence of drains from the initial table, whatever the mailbox
  holds at each: the pairs of the slots in use are pairwise different, the table has its
  64 slots and so at most 64 in use, and a slot in use stays exactly as it is through
  any further drains \<open>ms'\<close>.\<close>

theorem table_dedup_append_only:
  "distinct (map ip_pair (filter in_use (Clients (drains ms init_world))))
   \<and> length (Clients (drains ms init_world)) = 64
   \<and> length (filter in_use (Clients (drains ms init_world))) \<le> 64
   \<and> (\<forall>i<64. in_use (Clients (drains ms init_world) ! i) \<longrightarrow>
         Clients (drains (ms @ ms') init_world) ! i = Clients (drains ms init_world) ! i)"
proof -
  have len: "length (Clients (drains ms init_world)) = 64"
    by (simp add: drains_length init_table)
  have "length (filter in_use (Clients (drains ms init_world)))
          \<le> length (Clients (drains ms init_world))"
    by (rule length_filter_le)
  moreover have "distinct (map ip_pair (filter in_use (Clients (drains ms init_world))))"
    by (rule drains_distinct) (simp add: init_table)
  moreover have "\<forall>i<64. in_use (Clients (drains ms init_world) ! i) \<longrightarrow>
         Clients (drains (ms @ ms') init_world) ! i = Clients (drains ms init_world) ! i"
    by (simp add: drains_append drains_keeps len)
  ultimately show ?thesis
    using len by simp
qed

lemma init_first_drain:
  "Clients (drain (init_world\<lparr>NewClient := mailbox a b s\<rparr>)) ! 0
     = \<lparr>used = 1, next_to_last = a, last_b = b, sn = memcpy (replicate 18 0) 0 (mailbox a b s) 3 18\<rparr>"
proof -
  let ?m = "mailbox a b s"
  have r: "replicate MAX_CLIENTS zero_client = zero_client # replicate 63 zero_client"
    by (simp add: MAX_CLIENTS_def flip: replicate_Suc)
  have c: "Clients (init_world\<lparr>NewClient := ?m\<rparr>) = zero_client # replicate 63 zero_client"
    by (simp add: init_world_def r)
  have n: "NewClient (init_world\<lparr>NewClient := ?m\<rparr>) = ?m"
    by simp
  have nf: "\<not> find_existing ?m (zero_client # replicate 63 zero_client)"
    by (simp add: find_existing_iff in_use_def zero_client_def)
  show ?thesis
    unfolding drain_Clients c n using nf
    by (simp add: mailbox_def zero_client_def)
qed

theorem table_dedup_append_only_witness:
  "(0::nat) < 64
   \<and> in_use (Clients (drains [mailbox 10 20 (replicate 18 65)] init_world) ! 0)
   \<and> Clients (drains ([mailbox 10 20 (replicate 18 65)]
                @ [mailbox 10 20 (replicate 18 66), mailbox 11 21 (replicate 18 67)])
         init_world) ! 0
       = Clients (drains [mailbox 10 20 (replicate 18 65)] init_world) ! 0"
proof -
  have "in_use (Clients (drains [mailbox 10 20 (replicate 18 65)] init_world) ! 0)"
    by (simp add: init_first_drain in_use_def)
  then show ?thesis
    using table_dedup_append_only [of "[mailbox 10 20 (replicate 18 65)]"
        "[mailbox 10 20 (replicate 18 66), mailbox 11 21 (replicate 18 67)]"]
    by simp
qed

section \<open>Building the topology message\<close>

lemma memcpy_twice: "memcpy (memcpy dst d src s k) d src s k = memcpy dst d src s k"
  by (rule nth_equalityI) (simp_all add: length_memcpy nth_memcpy)

lemma fill_devs_length: "length (snd (snd (fill_devs cs x k devs))) = length devs"
  by (induction cs arbitrary: x k devs) simp_all

lemma fill_devs_below:
  "j < k \<Longrightarrow> snd (snd (fill_devs cs x k devs)) ! j = devs ! j"
  by (induction cs arbitrary: x k devs) simp_all

lemma fill_devs_counts:
  "fst (fill_devs cs x k devs) = x + sizeof_Topology_Dev_st * length (filter in_use cs)"
  "fst (snd (fill_devs cs x k devs)) = k + length (filter in_use cs)"
  by (induction cs arbitrary: x k devs) (simp_all add: in_use_def)

lemma fill_devs_twice:
  "fill_devs cs x k (snd (snd (fill_devs cs x k devs))) = fill_devs cs x k devs"
proof (induction cs arbitrary: x k devs)
  case Nil
  then show ?case by simp
next
  case (Cons c cs)
  show ?case
  proof (cases "used c = 0")
    case True
    then show ?thesis by (simp add: Cons.IH)
  next
    case False
    define f where "f d = d\<lparr>ip_lsb := last_b c, ip_msb := next_to_last c, duplicate_flag := 0,
      serial_number := memcpy (serial_number d) 0 (sn c) 0 18\<rparr>" for d :: Topology_Dev_st
    have ff: "f (f d) = f d" for d
      by (simp add: f_def memcpy_twice)
    let ?a = "devs[k := f (devs ! k)]"
    let ?r = "fill_devs cs (x + sizeof_Topology_Dev_st) (k + 1) ?a"
    have step: "fill_devs (c # cs) x k ds = fill_devs cs (x + sizeof_Topology_Dev_st) (k + 1)
        (ds[k := f (ds ! k)])" for ds
      using False by (simp add: f_def)
    have keep: "(snd (snd ?r))[k := f (snd (snd ?r) ! k)] = snd (snd ?r)"
    proof (cases "k < length devs")
      case True
      have "snd (snd ?r) ! k = ?a ! k"
        by (rule fill_devs_below) simp
      also have "\<dots> = f (devs ! k)"
        using True by simp
      finally have "f (snd (snd ?r) ! k) = snd (snd ?r) ! k"
        by (simp add: ff)
      then show ?thesis by simp
    next
      case False
      then show ?thesis by (intro list_update_beyond) (simp add: fill_devs_length)
    qed
    show ?thesis
      unfolding step keep by (rule Cons.IH)
  qed
qed

lemma bytes_of_msg_length: "length (bytes_of_msg h) = 12"
  by (simp add: bytes_of_msg_def)

text \<open>The state after a broadcast, field by field.\<close>

lemma topology_sent:
  assumes "TOPOLOGY_SECS < now t - last_topology w"
  shows "payload (last (wire (topology t w))) =
           take (fst (fill_devs (Clients w) sizeof_Topology_Msg_st 0 (topo_devs w)))
             (topo_bytes (topo_hdr (topology t w)) (topo_devs (topology t w)))"
    and "topo_devs (topology t w) = snd (snd (fill_devs (Clients w) sizeof_Topology_Msg_st 0 (topo_devs w)))"
    and "drop 8 (bytes_of_msg (topo_hdr (topology t w))) =
           [to_uchar (OUR_MQTT_PORT AND 0x00ff), to_uchar (drop_bit 8 OUR_MQTT_PORT AND 0x00ff),
            DeviceCount w, 1]"
    and "Clients (topology t w) = Clients w"
    and "DeviceCount (topology t w) = DeviceCount w"
    and "last_topology (topology t w) = now t"
  using assms by (simp_all add: topology_def Let_def bytes_of_msg_def split: prod.splits)

lemma drop_8_topo_bytes:
  "drop 8 (take x (topo_bytes h devs)) =
     take (x - 8) (drop 8 (bytes_of_msg h) @ concat (map bytes_of_dev devs))"
proof -
  have "drop 8 (bytes_of_msg h @ concat (map bytes_of_dev devs))
          = drop 8 (bytes_of_msg h) @ concat (map bytes_of_dev devs)"
    by (simp add: bytes_of_msg_length)
  then show ?thesis
    by (simp only: topo_bytes_def drop_take)
qed

lemma length_topo_bytes:
  "length (take x (topo_bytes h devs)) = min x (12 + length (concat (map bytes_of_dev devs)))"
  by (simp add: topo_bytes_def bytes_of_msg_length min.commute)

text \<open>C7.  When a broadcast is followed at once by a second one (both due by the clock),
  with nothing in between to change the table, the two payloads have the same length
  and agree from byte 8 on; bytes 0 to 7 are the seconds and nanoseconds of the header.\<close>

theorem topology_twice:
  assumes "TOPOLOGY_SECS < now t1 - last_topology w" and "TOPOLOGY_SECS < now t2 - now t1"
  shows "length (payload (last (wire (topology t2 (topology t1 w)))))
           = length (payload (last (wire (topology t1 w))))
       \<and> drop 8 (payload (last (wire (topology t2 (topology t1 w)))))
           = drop 8 (payload (last (wire (topology t1 w))))"
proof -
  let ?w1 = "topology t1 w"
  have a2: "TOPOLOGY_SECS < now t2 - last_topology ?w1"
    using topology_sent(6) [OF assms(1)] assms(2) by simp
  note s1 = topology_sent [OF assms(1)] and s2 = topology_sent [OF a2]
  have same: "fill_devs (Clients ?w1) sizeof_Topology_Msg_st 0 (topo_devs ?w1)
                = fill_devs (Clients w) sizeof_Topology_Msg_st 0 (topo_devs w)"
    by (simp add: s1(2,4) fill_devs_twice)
  have "topo_devs (topology t2 ?w1)
          = snd (snd (fill_devs (Clients ?w1) sizeof_Topology_Msg_st 0 (topo_devs ?w1)))"
    by (rule s2(2))
  also have "\<dots> = snd (snd (fill_devs (Clients w) sizeof_Topology_Msg_st 0 (topo_devs w)))"
    by (simp only: same)
  also have "\<dots> = topo_devs ?w1"
    by (rule s1(2) [symmetric])
  finally have devs: "topo_devs (topology t2 ?w1) = topo_devs ?w1" .
  have hdr: "drop 8 (bytes_of_msg (topo_hdr (topology t2 ?w1)))
               = drop 8 (bytes_of_msg (topo_hdr ?w1))"
    by (simp only: s1(3) s2(3) s1(5))
  show ?thesis
    by (simp only: s1(1) s2(1) same devs drop_8_topo_bytes length_topo_bytes hdr simp_thms)
qed

theorem topology_twice_witness:
  "TOPOLOGY_SECS < now clock_a - last_topology two_dev_world
   \<and> TOPOLOGY_SECS < now clock_b - now clock_a
   \<and> length (payload (last (wire (topology clock_b (topology clock_a two_dev_world)))))
       = length (payload (last (wire (topology clock_a two_dev_world))))
   \<and> drop 8 (payload (last (wire (topology clock_b (topology clock_a two_dev_world)))))
       = drop 8 (payload (last (wire (topology clock_a two_dev_world))))"
proof -
  have a: "TOPOLOGY_SECS < now clock_a - last_topology two_dev_world"
    by (simp add: TOPOLOGY_SECS_def clock_a_def two_dev_world_def init_world_def)
  have b: "TOPOLOGY_SECS < now clock_b - now clock_a"
    by (simp add: TOPOLOGY_SECS_def clock_a_def clock_b_def)
  from topology_twice [OF a b] a b show ?thesis by simp
qed

section \<open>The invariants hold in every reachable state\<close>

lemma fill_devs_ok: "topo_ok devs \<Longrightarrow> topo_ok (snd (snd (fill_devs cs x k devs)))"
proof (induction cs arbitrary: x k devs)
  case Nil
  then show ?case by simp
next
  case (Cons c cs)
  show ?case
  proof (cases "used c = 0")
    case True
    with Cons show ?thesis by simp
  next
    case False
    let ?d = "(devs ! k)\<lparr>ip_lsb := last_b c, ip_msb := next_to_last c, duplicate_flag := 0,
      serial_number := memcpy (serial_number (devs ! k)) 0 (sn c) 0 18\<rparr>"
    have "topo_ok (devs[k := ?d])"
    proof (cases "k < length devs")
      case True
      then have "devs ! k \<in> set devs" by simp
      with Cons.prems have "length (serial_number ?d) = 18 \<and> duplicate_flag ?d = 0"
        by (simp add: topo_ok_def length_memcpy)
      with Cons.prems show ?thesis
        using set_update_subset_insert [of devs k ?d]
        by (auto simp: topo_ok_def)
    next
      case False
      with Cons.prems show ?thesis by (simp add: list_update_beyond)
    qed
    from Cons.IH [OF this] False show ?thesis by simp
  qed
qed

lemma drain_count:
  assumes "length (Clients w) = MAX_CLIENTS"
    and "unat (DeviceCount w) = length (filter in_use (Clients w))"
  shows "unat (DeviceCount (drain w)) = length (filter in_use (Clients (drain w)))"
proof (cases "NewClient w ! 0 \<noteq> 0 \<and> \<not> find_existing (NewClient w) (Clients w)
    \<and> snd (insert_free (NewClient w) (Clients w))")
  case True
  let ?cs = "fst (insert_free (NewClient w) (Clients w))"
  have c: "length (filter in_use ?cs) = Suc (length (filter in_use (Clients w)))"
    using True by (simp add: insert_free_count)
  have "length (filter in_use ?cs) \<le> length ?cs"
    by (rule length_filter_le)
  then have "Suc (unat (DeviceCount w)) \<le> 64"
    using assms c by (simp add: insert_free_length MAX_CLIENTS_def)
  then have "unat (DeviceCount w + 1) = Suc (unat (DeviceCount w))"
    by (simp add: unat_word_ariths)
  with True c assms show ?thesis
    by (simp add: drain_Clients drain_DeviceCount)
next
  case False
  with assms insert_free_full [of "NewClient w" "Clients w"] show ?thesis
    by (auto simp: drain_Clients drain_DeviceCount)
qed

lemma drain_topo_devs: "topo_devs (drain w) = topo_devs w"
  by (simp add: drain_def Let_def split: prod.splits)

lemma poll_inv_drain: "poll_inv w \<Longrightarrow> poll_inv (drain w)"
  by (simp add: poll_inv_def drain_length drain_count drain_topo_devs)

lemma topology_fields:
  "Clients (topology t w) = Clients w" "DeviceCount (topology t w) = DeviceCount w"
  "topo_devs (topology t w) =
     (if TOPOLOGY_SECS < now t - last_topology w
      then snd (snd (fill_devs (Clients w) sizeof_Topology_Msg_st 0 (topo_devs w)))
      else topo_devs w)"
  by (simp_all add: topology_def Let_def split: prod.splits)

lemma poll_inv_topology: "poll_inv w \<Longrightarrow> poll_inv (topology t w)"
  by (simp add: poll_inv_def topology_fields fill_devs_ok)

lemma poll_inv_init: "poll_inv init_world"
  by (simp add: poll_inv_def topo_ok_def init_world_def in_use_def zero_client_def zero_dev_def)

lemma poll_inv_filter_recv: "poll_inv w \<Longrightarrow> poll_inv (filter_recv r w)"
  by (simp add: poll_inv_def filter_recv_def Let_def)

lemma poll_client_inv:
  assumes E: "\<And>k v. I v \<Longrightarrow> I (E k v)"
    and T: "\<And>v a. I v \<Longrightarrow> I (v\<lparr>tick := a\<rparr>)"
    and R: "\<And>v a. I v \<Longrightarrow> I (v\<lparr>Resp := a\<rparr>)"
    and N: "\<And>v a. I v \<Longrightarrow> I (v\<lparr>End := a\<rparr>)"
    and G: "\<And>v a. I v \<Longrightarrow> I (v\<lparr>Nga := a\<rparr>)"
    and W: "\<And>v a. I v \<Longrightarrow> I (v\<lparr>wire := a\<rparr>)"
    and C: "\<And>v a. I v \<Longrightarrow> I (v\<lparr>console := a\<rparr>)"
    and w: "I w"
  shows "I (poll_client E i c w)"
proof (cases "used c = 0")
  case True
  then show ?thesis using w by (simp add: poll_client_def)
next
  case False
  have 1: "I (env_act E (w\<lparr>Resp := 0\<rparr>))"
    by (intro env_act_inv [of I] E T R w)
  have 2: "I (env_act E ((env_act E (w\<lparr>Resp := 0\<rparr>))\<lparr>End := 0\<rparr>))"
    by (intro env_act_inv [of I] E T N 1)
  have s: "I (poll_send E i c w)"
    unfolding poll_send_def Let_def by (intro C W G 2)
  obtain w5 idle brk where r: "poll_wait E (poll_send E i c w) 0 = (w5, idle, brk)"
    by (cases "poll_wait E (poll_send E i c w) 0") auto
  have "I (fst (poll_wait E (poll_send E i c w) 0))"
    by (intro poll_wait_inv [of I] E T s)
  then have "I (env_act E w5)"
    unfolding r fst_conv by (intro env_act_inv [of I] E T)
  then show ?thesis
    using False by (simp add: poll_client_def Let_def r C)
qed

lemma poll_round_inv:
  assumes E: "\<And>k v. I v \<Longrightarrow> I (E k v)"
    and T: "\<And>v a. I v \<Longrightarrow> I (v\<lparr>tick := a\<rparr>)"
    and R: "\<And>v a. I v \<Longrightarrow> I (v\<lparr>Resp := a\<rparr>)"
    and N: "\<And>v a. I v \<Longrightarrow> I (v\<lparr>End := a\<rparr>)"
    and G: "\<And>v a. I v \<Longrightarrow> I (v\<lparr>Nga := a\<rparr>)"
    and W: "\<And>v a. I v \<Longrightarrow> I (v\<lparr>wire := a\<rparr>)"
    and C: "\<And>v a. I v \<Longrightarrow> I (v\<lparr>console := a\<rparr>)"
    and w: "I w"
  shows "I (poll_round E w)"
proof -
  have "I v \<Longrightarrow> I (poll_clients E i cs v)" for i cs v
    by (induction cs arbitrary: i v) (simp_all add: poll_client_inv [of I, OF E T R N G W C])
  from this [OF w] show ?thesis
    unfolding poll_round_def by (rule G)
qed

lemma poll_inv_loop: "poll_inv (poll_loop (capture_env F) ts init_world)"
proof -
  have E: "poll_inv v \<Longrightarrow> poll_inv (capture_env F k v)" for k v
    by (rule capture_env_inv [of poll_inv]) (simp_all add: poll_inv_filter_recv)
  have step: "poll_inv v \<Longrightarrow> poll_inv (poll_iteration (capture_env F) t v)" for t v
    unfolding poll_iteration_def
    by (intro poll_round_inv [of poll_inv] poll_inv_topology poll_inv_drain
        env_act_inv [of poll_inv] E)
      (simp_all add: poll_inv_def)
  have "poll_inv v \<Longrightarrow> poll_inv (poll_loop (capture_env F) ts v)" for v
    by (induction ts arbitrary: v) (simp_all add: step)
  then show ?thesis by (simp add: poll_inv_init)
qed

lemma poll_inv_broadcast:
  "poll_inv (drain (env_act (capture_env F) (poll_loop (capture_env F) ts init_world)))"
proof -
  have E: "poll_inv v \<Longrightarrow> poll_inv (capture_env F k v)" for k v
    by (rule capture_env_inv [of poll_inv]) (simp_all add: poll_inv_filter_recv)
  show ?thesis
    by (intro poll_inv_drain env_act_inv [of poll_inv] E poll_inv_loop)
      (simp_all add: poll_inv_def)
qed

section \<open>The bytes of a broadcast\<close>

lemma concat_take_uniform:
  "\<forall>x\<in>set xs. length x = m \<Longrightarrow> take (m * k) (concat xs) = concat (take k xs)"
proof (induction xs arbitrary: k)
  case Nil
  then show ?case by simp
next
  case (Cons x xs)
  then show ?case by (cases k) simp_all
qed

lemma concat_nth_uniform:
  "\<forall>x\<in>set xs. length x = m \<Longrightarrow> j < length xs \<Longrightarrow> i < m \<Longrightarrow>
   concat xs ! (m * j + i) = xs ! j ! i"
proof (induction xs arbitrary: j)
  case Nil
  then show ?case by simp
next
  case (Cons x xs)
  then show ?case by (cases j) (simp_all add: nth_append)
qed

lemma length_concat_uniform:
  "\<forall>x\<in>set xs. length x = m \<Longrightarrow> length (concat xs) = m * length xs"
  by (induction xs) simp_all

lemma bytes_of_dev_length: "length (serial_number d) = 18 \<Longrightarrow> length (bytes_of_dev d) = 22"
  by (simp add: bytes_of_dev_def)

lemma broadcast_payload:
  assumes inv: "poll_inv w" and due: "TOPOLOGY_SECS < now t - last_topology w"
  shows "broadcast_msg t w =
           bytes_of_msg (topo_hdr (topology t w))
           @ concat (map bytes_of_dev
               (take (length (filter in_use (Clients w))) (topo_devs (topology t w))))"
proof -
  let ?n = "length (filter in_use (Clients w))"
  let ?devs = "topo_devs (topology t w)"
  note s = topology_sent [OF due]
  have "topo_ok ?devs"
    using poll_inv_topology [OF inv] by (simp add: poll_inv_def)
  then have u: "\<forall>x\<in>set (map bytes_of_dev ?devs). length x = 22"
    by (simp add: topo_ok_def bytes_of_dev_length)
  have x: "fst (fill_devs (Clients w) sizeof_Topology_Msg_st 0 (topo_devs w)) = 12 + 22 * ?n"
    by (simp add: fill_devs_counts sizeof_Topology_Msg_st_def sizeof_Topology_Dev_st_def)
  have "broadcast_msg t w = take (12 + 22 * ?n) (topo_bytes (topo_hdr (topology t w)) ?devs)"
    by (simp only: broadcast_msg_def s(1) x)
  also have "\<dots> = bytes_of_msg (topo_hdr (topology t w))
      @ take (22 * ?n) (concat (map bytes_of_dev ?devs))"
    by (simp add: topo_bytes_def bytes_of_msg_length)
  also have "take (22 * ?n) (concat (map bytes_of_dev ?devs))
      = concat (take ?n (map bytes_of_dev ?devs))"
    by (rule concat_take_uniform [OF u])
  finally show ?thesis
    by (simp only: take_map)
qed

lemma broadcast_shape:
  assumes inv: "poll_inv w" and due: "TOPOLOGY_SECS < now t - last_topology w"
  shows "broadcast_msg t w ! 10 = DeviceCount w"
    and "length (broadcast_msg t w) = 12 + 22 * length (filter in_use (Clients w))"
    and "j < length (filter in_use (Clients w)) \<Longrightarrow>
         broadcast_msg t w ! (12 + 22 * j + 2) = duplicate_flag (topo_devs (topology t w) ! j)"
proof -
  let ?n = "length (filter in_use (Clients w))"
  let ?devs = "topo_devs (topology t w)"
  note p = broadcast_payload [OF inv due]
  have ok: "topo_ok ?devs"
    using poll_inv_topology [OF inv] by (simp add: poll_inv_def)
  have n: "?n \<le> length ?devs"
    using inv ok length_filter_le [of in_use "Clients w"] by (simp add: poll_inv_def topo_ok_def)
  have u: "\<forall>x\<in>set (map bytes_of_dev (take ?n ?devs)). length x = 22"
    using ok by (auto simp: topo_ok_def bytes_of_dev_length dest: in_set_takeD)
  have "drop 8 (bytes_of_msg (topo_hdr (topology t w))) ! 2 = DeviceCount w"
    by (simp only: topology_sent(3) [OF due]) simp
  then have "bytes_of_msg (topo_hdr (topology t w)) ! 10 = DeviceCount w"
    by (simp add: bytes_of_msg_length)
  then show "broadcast_msg t w ! 10 = DeviceCount w"
    by (simp add: p nth_append bytes_of_msg_length)
  show "length (broadcast_msg t w) = 12 + 22 * ?n"
    using n by (simp add: p bytes_of_msg_length length_concat_uniform [OF u])
  show "broadcast_msg t w ! (12 + 22 * j + 2) = duplicate_flag (?devs ! j)" if j: "j < ?n"
  proof -
    have "broadcast_msg t w ! (12 + 22 * j + 2)
            = concat (map bytes_of_dev (take ?n ?devs)) ! (22 * j + 2)"
      by (simp add: p nth_append bytes_of_msg_length)
    also have "\<dots> = map bytes_of_dev (take ?n ?devs) ! j ! 2"
      by (rule concat_nth_uniform [OF u]) (use j n in simp_all)
    also have "\<dots> = duplicate_flag (?devs ! j)"
      using j n by (simp add: bytes_of_dev_def)
    finally show ?thesis .
  qed
qed

text \<open>C8.  In the state in which any broadcast block runs, \<^verbatim>\<open>DeviceCount\<close> is the number
  of slots in use; and when the broadcast is due, byte 10 of the payload
  (\<^verbatim>\<open>device_count\<close>) is \<^verbatim>\<open>DeviceCount\<close> and the payload is the 12-byte header followed by
  exactly that many 22-byte descriptors.\<close>

theorem device_count_matches:
  "unat (DeviceCount (broadcast_state F ts))
     = length (filter in_use (Clients (broadcast_state F ts)))
   \<and> (TOPOLOGY_SECS < now t - last_topology (broadcast_state F ts) \<longrightarrow>
        broadcast_msg t (broadcast_state F ts) ! 10 = DeviceCount (broadcast_state F ts)
        \<and> length (broadcast_msg t (broadcast_state F ts))
            = 12 + 22 * unat (broadcast_msg t (broadcast_state F ts) ! 10))"
proof -
  have inv: "poll_inv (broadcast_state F ts)"
    unfolding broadcast_state_def by (rule poll_inv_broadcast)
  then have c: "unat (DeviceCount (broadcast_state F ts))
     = length (filter in_use (Clients (broadcast_state F ts)))"
    by (simp add: poll_inv_def)
  show ?thesis
    using c broadcast_shape(1,2) [OF inv] by simp
qed

text \<open>C10.  In every reachable state of the block \<^verbatim>\<open>topo\<close> all descriptors have
  \<^verbatim>\<open>duplicate_flag = 0\<close>, and in every payload broadcast the third byte of each of the
  \<^verbatim>\<open>device_count\<close> descriptors is 0.\<close>

theorem duplicate_flag_zero:
  "(\<forall>d\<in>set (topo_devs (topology t (broadcast_state F ts))). duplicate_flag d = 0)
   \<and> (TOPOLOGY_SECS < now t - last_topology (broadcast_state F ts) \<longrightarrow>
        (\<forall>j<unat (broadcast_msg t (broadcast_state F ts) ! 10).
           broadcast_msg t (broadcast_state F ts) ! (12 + 22 * j + 2) = 0))"
proof -
  let ?w = "broadcast_state F ts"
  have inv: "poll_inv ?w"
    unfolding broadcast_state_def by (rule poll_inv_broadcast)
  have ok: "topo_ok (topo_devs (topology t ?w))"
    using poll_inv_topology [OF inv] by (simp add: poll_inv_def)
  then have z: "\<forall>d\<in>set (topo_devs (topology t ?w)). duplicate_flag d = 0"
    by (simp add: topo_ok_def)
  have n: "unat (DeviceCount ?w) = length (filter in_use (Clients ?w))"
    using inv by (simp add: poll_inv_def)
  have "broadcast_msg t ?w ! (12 + 22 * j + 2) = 0"
    if due: "TOPOLOGY_SECS < now t - last_topology ?w"
      and j: "j < unat (broadcast_msg t ?w ! 10)" for j
  proof -
    from j have j': "j < length (filter in_use (Clients ?w))"
      by (simp add: broadcast_shape(1) [OF inv due] n)
    then have "j < length (topo_devs (topology t ?w))"
      using inv ok length_filter_le [of in_use "Clients ?w"]
      by (simp add: poll_inv_def topo_ok_def)
    then have "duplicate_flag (topo_devs (topology t ?w) ! j) = 0"
      using z by simp
    then show ?thesis
      by (simp only: broadcast_shape(3) [OF inv due j'])
  qed
  with z show ?thesis by blast
qed

section \<open>The first broadcast after one announce\<close>

lemma drain_first_DeviceCount:
  assumes c: "Clients w = replicate MAX_CLIENTS zero_client" and p: "NewClient w ! 0 \<noteq> 0"
  shows "DeviceCount (drain w) = DeviceCount w + 1"
proof -
  have r: "replicate MAX_CLIENTS zero_client = zero_client # replicate 63 zero_client"
    by (simp add: MAX_CLIENTS_def flip: replicate_Suc)
  have nf: "\<not> find_existing (NewClient w) (Clients w)"
    by (simp add: find_existing_iff c in_use_def zero_client_def)
  have "snd (insert_free (NewClient w) (Clients w))"
    unfolding c r by (simp add: zero_client_def)
  with nf p show ?thesis
    by (simp add: drain_DeviceCount)
qed

lemma first_broadcast_state:
  "DeviceCount (broadcast_state (\<lambda>k. [announce_frame 0]) []) = 1"
  "last_topology (broadcast_state (\<lambda>k. [announce_frame 0]) []) = 0"
proof -
  let ?w = "env_act (capture_env (\<lambda>k. [announce_frame 0])) init_world"
  have w: "?w = (filter_recv (announce_frame 0) init_world)\<lparr>tick := 1\<rparr>"
    by (simp add: env_act_def capture_env_def init_world_def)
  have c: "Clients ?w = replicate MAX_CLIENTS zero_client"
    by (simp add: w filter_recv_poll_cells) (simp add: init_world_def)
  have "NewClient (filter_recv (announce_frame 0) init_world) ! 0 = 1"
    by (simp add: filter_recv_def announce_frame_def init_world_def Let_def
        nth_memcpy length_memcpy)
  then have p: "NewClient ?w ! 0 \<noteq> 0"
    by (simp add: w)
  have d: "DeviceCount ?w = 0"
    by (simp add: w filter_recv_poll_cells) (simp add: init_world_def)
  show "DeviceCount (broadcast_state (\<lambda>k. [announce_frame 0]) []) = 1"
    using drain_first_DeviceCount [OF c p] by (simp add: broadcast_state_def d)
  have "last_topology (drain v) = last_topology v" for v
    by (simp add: drain_def Let_def split: prod.splits)
  moreover have "last_topology ?w = 0"
    by (simp add: w filter_recv_def Let_def) (simp add: init_world_def)
  ultimately show "last_topology (broadcast_state (\<lambda>k. [announce_frame 0]) []) = 0"
    by (simp add: broadcast_state_def)
qed

theorem device_count_matches_witness:
  "TOPOLOGY_SECS < now clock_a - last_topology (broadcast_state (\<lambda>k. [announce_frame 0]) [])
   \<and> broadcast_msg clock_a (broadcast_state (\<lambda>k. [announce_frame 0]) []) ! 10 = 1
   \<and> length (broadcast_msg clock_a (broadcast_state (\<lambda>k. [announce_frame 0]) [])) = 34"
proof -
  have due: "TOPOLOGY_SECS
      < now clock_a - last_topology (broadcast_state (\<lambda>k. [announce_frame 0]) [])"
    by (simp add: first_broadcast_state TOPOLOGY_SECS_def clock_a_def)
  from device_count_matches [of "\<lambda>k. [announce_frame 0]" "[]" clock_a] due
  have "broadcast_msg clock_a (broadcast_state (\<lambda>k. [announce_frame 0]) []) ! 10 = 1
    \<and> length (broadcast_msg clock_a (broadcast_state (\<lambda>k. [announce_frame 0]) []))
        = 12 + 22 * unat (broadcast_msg clock_a (broadcast_state (\<lambda>k. [announce_frame 0]) []) ! 10)"
    by (simp only: first_broadcast_state simp_thms)
  then have "broadcast_msg clock_a (broadcast_state (\<lambda>k. [announce_frame 0]) []) ! 10 = 1
    \<and> length (broadcast_msg clock_a (broadcast_state (\<lambda>k. [announce_frame 0]) [])) = 34"
    by simp
  with due show ?thesis by simp
qed

theorem duplicate_flag_zero_witness:
  "TOPOLOGY_SECS < now clock_a - last_topology (broadcast_state (\<lambda>k. [announce_frame 0]) [])
   \<and> (0::nat) < unat (broadcast_msg clock_a (broadcast_state (\<lambda>k. [announce_frame 0]) []) ! 10)
   \<and> broadcast_msg clock_a (broadcast_state (\<lambda>k. [announce_frame 0]) []) ! 14 = 0"
proof -
  have due: "TOPOLOGY_SECS
      < now clock_a - last_topology (broadcast_state (\<lambda>k. [announce_frame 0]) [])"
    by (simp add: first_broadcast_state TOPOLOGY_SECS_def clock_a_def)
  have inv: "poll_inv (broadcast_state (\<lambda>k. [announce_frame 0]) [])"
    unfolding broadcast_state_def by (rule poll_inv_broadcast)
  have n: "broadcast_msg clock_a (broadcast_state (\<lambda>k. [announce_frame 0]) []) ! 10 = 1"
    by (simp add: broadcast_shape(1) [OF inv due] first_broadcast_state)
  from duplicate_flag_zero [of clock_a "\<lambda>k. [announce_frame 0]" "[]"] due n
  have "\<forall>j<1. broadcast_msg clock_a (broadcast_state (\<lambda>k. [announce_frame 0]) [])
      ! (12 + 22 * j + 2) = 0"
    by simp
  then have "broadcast_msg clock_a (broadcast_state (\<lambda>k. [announce_frame 0]) []) ! 14 = 0"
    by simp
  with due n show ?thesis by simp
qed

section \<open>Signal 44 without a handler\<close>























end
